theory Spec2Isabelle
  imports Main "HOL-Library.Word" "HOL-Library.Signed_Division"
begin

unbundle bit_operations_syntax

chapter \<open>A shallow embedding of the PAQ8HP predictor core and the byte mixer\<close>

text \<open>
  The development follows \<^verbatim>\<open>src/models/paq8hp.cpp\<close> and
  \<^verbatim>\<open>src/mixer/byte-mixer.cpp\<close>.  C++ \<^verbatim>\<open>int\<close> values are HOL integers
  (signed overflow is undefined in C++ and is not reached by any value the
  theorems speak about); \<^verbatim>\<open>U8\<close>, \<^verbatim>\<open>U16\<close>, \<^verbatim>\<open>U32\<close> and \<^verbatim>\<open>short\<close> are
  machine words that wrap.  An arithmetic right shift \<^verbatim>\<open>a >> n\<close> of an
  \<^verbatim>\<open>int\<close> is \<open>drop_bit n a\<close> (rounding towards minus infinity), the
  division \<^verbatim>\<open>a / b\<close> of two \<^verbatim>\<open>int\<close>s is \<open>a sdiv b\<close> (truncating towards
  zero).  An array access outside the array is undefined behaviour in the
  source; the operations whose index depends on their argument return
  \<open>None\<close> there.
\<close>

section \<open>Definitions\<close>

type_synonym U8 = "8 word"
type_synonym U16 = "16 word"
type_synonym U32 = "32 word"
type_synonym short = "16 word"

subsection \<open>Buf and the global context\<close>

text \<open>
  \<^verbatim>\<open>Buf\<close>: a byte array of \<open>Buf_size\<close> bytes (a power of two), indexed
  with wrap.  The array is a function on indices, so that the 8*MEM bytes
  of a real buffer need not be written out.
\<close>

record Buf =
  Buf_b :: "int \<Rightarrow> U8"
  Buf_size :: int

definition Buf_setsize :: "int \<Rightarrow> Buf \<Rightarrow> Buf" where
  "Buf_setsize i b = (if i = 0 then b else b\<lparr>Buf_size := i\<rparr>)"

text \<open>\<^verbatim>\<open>buf[i] = v\<close>, through \<^verbatim>\<open>U8& operator[](int i)\<close>.\<close>

definition Buf_store :: "int \<Rightarrow> U8 \<Rightarrow> Buf \<Rightarrow> Buf" where
  "Buf_store i v b = b\<lparr>Buf_b := (Buf_b b)(i AND (Buf_size b - 1) := v)\<rparr>"

text \<open>
  The file-scope variables of the source (``Global context set by Predictor
  and available to all models''), with \<^verbatim>\<open>fails\<close>, \<^verbatim>\<open>failz\<close> and
  \<^verbatim>\<open>failcount\<close>, which \<^verbatim>\<open>Predictor::update\<close> maintains.
\<close>

record gctx =
  level :: int
  pos :: int
  y :: int
  c0 :: int
  b1 :: U32
  b2 :: U32
  b3 :: U32
  b4 :: U32
  b5 :: U32
  b6 :: U32
  b7 :: U32
  b8 :: U32
  tt :: U32
  c4 :: U32
  x4 :: U32
  x5 :: U32
  w4 :: U32
  w5 :: U32
  f4 :: U32
  order :: int
  bpos :: int
  cxtfl :: int
  sm_shft :: int
  sm_add :: int
  sm_add_y :: int
  buf :: Buf
  fails :: U32
  failz :: U32
  failcount :: U32

text \<open>The initial values of the globals (level is \<^verbatim>\<open>DEFAULT_OPTION\<close> = 8).\<close>

definition gctx_init :: gctx where
  "gctx_init = \<lparr>level = 8, pos = 0, y = 0, c0 = 1,
     b1 = 0, b2 = 0, b3 = 0, b4 = 0, b5 = 0, b6 = 0, b7 = 0, b8 = 0,
     tt = 0, c4 = 0, x4 = 0, x5 = 0, w4 = 0, w5 = 0, f4 = 0,
     order = 0, bpos = 0, cxtfl = 3, sm_shft = 7, sm_add = 65535 + 127, sm_add_y = 0,
     buf = \<lparr>Buf_b = (\<lambda>i. 0), Buf_size = 0\<rparr>,
     fails = 0, failz = 0, failcount = 0\<rparr>"

definition MEM :: "gctx \<Rightarrow> int" where
  "MEM g = push_bit (nat (level g)) 0x10000"

definition PAQ8Init :: "int \<Rightarrow> gctx \<Rightarrow> gctx" where
  "PAQ8Init memory g =
     (let g1 = g\<lparr>level := memory\<rparr> in g1\<lparr>buf := Buf_setsize (MEM g1 * 8) (buf g1)\<rparr>)"

definition WRT_mpw :: "U32 list" where
  "WRT_mpw = [3, 3, 3, 2, 2, 2, 1, 1, 1, 1, 1, 1, 1, 0, 0, 0]"

definition WRT_mtt :: "U32 list" where
  "WRT_mtt = [0, 0, 1, 2, 3, 4, 5, 5, 6, 6, 6, 6, 6, 7, 7, 7]"

definition tri :: "U32 list" where
  "tri = [0, 4, 3, 7]"

definition trj :: "U32 list" where
  "trj = [0, 6, 6, 12]"

text \<open>
  The test \<^verbatim>\<open>c0=='.' || c0=='O' || c0=='M' || c0=='!' || c0==')' || c0==('}'-'{'+'P')\<close>;
  the last character is 125 - 123 + 80 = 82.
\<close>

definition sentence_byte :: "int \<Rightarrow> bool" where
  "sentence_byte c = (c = 46 \<or> c = 79 \<or> c = 77 \<or> c = 33 \<or> c = 41 \<or> c = 82)"

text \<open>
  The statements of \<^verbatim>\<open>Predictor::update\<close> inside \<^verbatim>\<open>if (c0>=256) { ... }\<close>,
  in the order of the source, cut into six groups of consecutive statements.
  Each \<open>let\<close> is one statement (or one comma expression).
\<close>

text \<open>\<^verbatim>\<open>buf[pos++]=c0; c0-=256;\<close> (the store keeps the low 8 bits of \<^verbatim>\<open>c0\<close>).\<close>

definition store_byte :: "gctx \<Rightarrow> gctx" where
  "store_byte g =
    (let g1 = g\<lparr>buf := Buf_store (pos g) (word_of_int (c0 g)) (buf g), pos := pos g + 1\<rparr>
     in g1\<lparr>c0 := c0 g1 - 256\<rparr>)"

text \<open>The block \<^verbatim>\<open>if (pos<=1024*1024) { ... }\<close>.\<close>

definition update_smoothing :: "gctx \<Rightarrow> gctx" where
  "update_smoothing g =
    (if pos g \<le> 1024 * 1024 then
       (let ga = (if pos g = 1024 * 1024
                  then g\<lparr>sm_shft := 9, sm_add := 65535 + 511\<rparr> else g);
            gb = (if pos ga = 512 * 1024
                  then ga\<lparr>sm_shft := 8, sm_add := 65535 + 255\<rparr> else ga)
        in gb\<lparr>sm_add_y := sm_add gb AND (- y gb)\<rparr>)
     else g)"

text \<open>
  \<^verbatim>\<open>int i=WRT_mpw[c0>>4]; w4=w4*4+i; if (b1==12) i=2; w5=w5*4+i;\<close>
  (\<^verbatim>\<open>b1\<close> is still the byte before the one that has just been completed).
\<close>

definition update_w4_w5 :: "gctx \<Rightarrow> gctx" where
  "update_w4_w5 g =
    (let i = WRT_mpw ! nat (drop_bit 4 (c0 g));
         g1 = g\<lparr>w4 := w4 g * 4 + i\<rparr>;
         i2 = (if b1 g1 = 12 then 2 else i)
     in g1\<lparr>w5 := w5 g1 * 4 + i2\<rparr>)"

text \<open>\<^verbatim>\<open>b8=b7, b7=b6, b6=b5, b5=b4, b4=b3; b3=b2; b2=b1; b1=c0;\<close>\<close>

definition shift_bytes :: "gctx \<Rightarrow> gctx" where
  "shift_bytes g =
     g\<lparr>b8 := b7 g, b7 := b6 g, b6 := b5 g, b5 := b4 g,
       b4 := b3 g, b3 := b2 g, b2 := b1 g, b1 := word_of_int (c0 g)\<rparr>"

text \<open>The block \<^verbatim>\<open>if(c0=='.' || ... ) { ... }\<close> for the bytes that end a sentence.\<close>

definition update_sentence :: "gctx \<Rightarrow> gctx" where
  "update_sentence g =
    (if sentence_byte (c0 g) then
       (let ga = g\<lparr>w5 := push_bit 8 (w5 g) OR 0x3ff,
                    x5 := push_bit 8 (x5 g) + word_of_int (c0 g),
                    f4 := (f4 g AND 0xfffffff0) + 2\<rparr>;
            gb = (if c0 ga \<noteq> 33 \<and> c0 ga \<noteq> 79 then ga\<lparr>w4 := w4 ga OR 12\<rparr> else ga)
        in (if c0 gb \<noteq> 33
            then gb\<lparr>b2 := 46, tt := (tt gb AND 0xfffffff8) + 1\<rparr> else gb))
     else g)"

text \<open>
  \<^verbatim>\<open>c4=(c4<<8)+c0; x5=(x5<<8)+c0; if (c0==32) --c0; f4=f4*16+(c0>>4);
  tt=tt*8+WRT_mtt[c0>>4]; c0=1;\<close>
\<close>

definition update_packed :: "gctx \<Rightarrow> gctx" where
  "update_packed g =
    (let g1 = g\<lparr>c4 := push_bit 8 (c4 g) + word_of_int (c0 g)\<rparr>;
         g2 = g1\<lparr>x5 := push_bit 8 (x5 g1) + word_of_int (c0 g1)\<rparr>;
         g3 = (if c0 g2 = 32 then g2\<lparr>c0 := c0 g2 - 1\<rparr> else g2);
         g4 = g3\<lparr>f4 := f4 g3 * 16 + word_of_int (drop_bit 4 (c0 g3))\<rparr>;
         g5 = g4\<lparr>tt := tt g4 * 8 + WRT_mtt ! nat (drop_bit 4 (c0 g4))\<rparr>
     in g5\<lparr>c0 := 1\<rparr>)"

definition update_byte :: "gctx \<Rightarrow> gctx" where
  "update_byte g =
     update_packed (update_sentence (shift_bytes (update_w4_w5 (update_smoothing (store_byte g)))))"

text \<open>
  \<^verbatim>\<open>Predictor::update\<close>, first part (``Update global context: pos, bpos, c0,
  c4, buf''): from \<^verbatim>\<open>c0+=c0+y\<close> to \<^verbatim>\<open>bpos=(bpos+1)&7\<close>.
\<close>

definition update_context :: "gctx \<Rightarrow> gctx" where
  "update_context g =
    (let g1 = g\<lparr>c0 := c0 g + (c0 g + y g)\<rparr>;
         g2 = (if c0 g1 \<ge> 256 then update_byte g1 else g1)
     in g2\<lparr>bpos := (bpos g2 + 1) AND 7\<rparr>)"

text \<open>
  \<^verbatim>\<open>PAQ8Perceive\<close> up to its call of \<^verbatim>\<open>paq8.update()\<close>: the bit is stored
  in \<^verbatim>\<open>y\<close> and \<^verbatim>\<open>sm_add_y\<close> is set from it.
\<close>

definition set_bit_y :: "int \<Rightarrow> gctx \<Rightarrow> gctx" where
  "set_bit_y bitv g =
    (let g1 = g\<lparr>y := bitv\<rparr>
     in (if bitv \<noteq> 0 then g1\<lparr>sm_add_y := sm_add g1\<rparr> else g1\<lparr>sm_add_y := 0\<rparr>))"

text \<open>The effect of one \<^verbatim>\<open>PAQ8Perceive(bit)\<close> on the global context registers.\<close>

definition perceive_context :: "int \<Rightarrow> gctx \<Rightarrow> gctx" where
  "perceive_context bitv g = update_context (set_bit_y bitv g)"

text \<open>The context after a sequence of bits, first bit first.\<close>

fun perceive_bits :: "int list \<Rightarrow> gctx \<Rightarrow> gctx" where
  "perceive_bits [] g = g"
| "perceive_bits (bitv # bits) g = perceive_bits bits (perceive_context bitv g)"

text \<open>
  The pair \<^verbatim>\<open>(sm_shft, sm_add)\<close> that the source's schedule gives for a byte
  count: the initial pair below 512K bytes, the second from 512K bytes on,
  the third from 1M bytes on.
\<close>

definition smoothing_on_schedule :: "gctx \<Rightarrow> bool" where
  "smoothing_on_schedule g =
     ((sm_shft g, sm_add g) =
        (if pos g < 512 * 1024 then (7, 65662)
         else if pos g < 1024 * 1024 then (8, 65790) else (9, 66046)))"

text \<open>
  Two example runs: the bytes 12, 0 from the initial state, and a state
  one bit before the byte count reaches 512K.
\<close>

definition after_FF_NUL :: gctx where
  "after_FF_NUL =
     perceive_bits [0,0,0,0,1,1,0,0, 0,0,0,0,0,0,0,0] (PAQ8Init 8 gctx_init)"

definition before_FF_NUL_last_bit :: gctx where
  "before_FF_NUL_last_bit =
     perceive_bits [0,0,0,0,1,1,0,0, 0,0,0,0,0,0,0] (PAQ8Init 8 gctx_init)"

definition before_512K :: gctx where
  "before_512K = (PAQ8Init 8 gctx_init)\<lparr>pos := 512 * 1024 - 1, c0 := 255, bpos := 7\<rparr>"

text \<open>
  The context after \<^verbatim>\<open>PAQ8Perceive\<close> has stored the bit and \<^verbatim>\<open>Predictor::update\<close>
  has run its first statement \<^verbatim>\<open>c0+=c0+y\<close>; the bit completes a byte when
  \<^verbatim>\<open>c0 >= 256\<close> there, that is \<open>128 \<le> c0\<close> before.
\<close>

definition shifted :: "int \<Rightarrow> gctx \<Rightarrow> gctx" where
  "shifted bitv g =
     (set_bit_y bitv g)\<lparr>c0 := c0 (set_bit_y bitv g) +
        (c0 (set_bit_y bitv g) + y (set_bit_y bitv g))\<rparr>"

subsection \<open>squash and stretch\<close>

text \<open>The table \<^verbatim>\<open>static const int t[33]\<close> of \<^verbatim>\<open>squash\<close>.\<close>

definition squash_t :: "int list" where
  "squash_t = [1, 2, 3, 6, 10, 16, 27, 45, 73, 120, 194, 310, 488, 747, 1101,
     1546, 2047, 2549, 2994, 3348, 3607, 3785, 3901, 3975, 4022,
     4050, 4068, 4079, 4085, 4089, 4092, 4093, 4094]"

text \<open>\<^verbatim>\<open>int squash(int d)\<close>; \<open>d2\<close> is \<^verbatim>\<open>d\<close> after \<^verbatim>\<open>d=(d>>7)+16\<close>.\<close>

definition squash :: "int \<Rightarrow> int" where
  "squash d =
    (if d > 2047 then 4095
     else if d < - 2047 then 0
     else (let w = d AND 127;
               d2 = drop_bit 7 d + 16
           in drop_bit 7 (squash_t ! nat d2 * (128 - w) + squash_t ! nat (d2 + 1) * w + 64)))"

text \<open>
  The inner loop \<^verbatim>\<open>for (int j=pi; j<=i; ++j) t[j]=x;\<close> of the constructor
  \<^verbatim>\<open>Stretch::Stretch\<close>, on the table \<^verbatim>\<open>short t[4096]\<close>.
\<close>

function Stretch_fill :: "short list \<Rightarrow> int \<Rightarrow> int \<Rightarrow> int \<Rightarrow> short list" where
  "Stretch_fill t j i x =
     (if j \<le> i then Stretch_fill (t[nat j := word_of_int x]) (j + 1) i x else t)"
  by pat_completeness auto
termination
  by (relation "measure (\<lambda>(t, j, i, x). nat (i + 1 - j))") auto

text \<open>
  The outer loop \<^verbatim>\<open>for (int x=-2047; x<=2047; ++x) { int i=squash(x); ...; pi=i+1; }\<close>
  from the loop variable \<open>x\<close> on.
\<close>

function Stretch_loop :: "int \<Rightarrow> int \<Rightarrow> short list \<Rightarrow> short list" where
  "Stretch_loop x pi t =
     (if x \<le> 2047
      then (let i = squash x in Stretch_loop (x + 1) (i + 1) (Stretch_fill t pi i x))
      else t)"
  by pat_completeness auto
termination
  by (relation "measure (\<lambda>(x, pi, t). nat (2048 - x))") auto

declare Stretch_fill.simps [simp del] Stretch_loop.simps [simp del]

text \<open>The table after the constructor; the array starts zeroed (static storage).\<close>

definition Stretch_t :: "short list" where
  "Stretch_t = (Stretch_loop (- 2047) 0 (replicate 4096 0))[4095 := word_of_int 2047]"

text \<open>
  \<^verbatim>\<open>int operator()(int p) const\<close> of \<^verbatim>\<open>Stretch\<close>: \<^verbatim>\<open>t[p]\<close>, read as a signed
  16-bit value; outside \<^verbatim>\<open>0 <= p < 4096\<close> (the source's assertion) the read
  is outside the table.
\<close>

definition stretch :: "int \<Rightarrow> int option" where
  "stretch p = (if 0 \<le> p \<and> p < 4096 then Some (sint (Stretch_t ! nat p)) else None)"

text \<open>
  The numerator of the interpolation in \<^verbatim>\<open>squash\<close>, for \<open>d = 128 * q + w\<close>
  with \<open>0 \<le> w < 128\<close> (used in the proofs only).
\<close>

definition squash_num :: "int \<Rightarrow> int \<Rightarrow> int" where
  "squash_num q w = squash_t ! nat (q + 16) * (128 - w) + squash_t ! nat (q + 17) * w + 64"

subsection \<open>Arrays\<close>

text \<open>
  An \<^verbatim>\<open>Array\<close> of the source is a list; the length of the list is the size
  of the array.  Reading or writing outside it (undefined behaviour in the
  source, where \<^verbatim>\<open>NDEBUG\<close> turns the bounds checks off) is \<open>None\<close>.
\<close>

definition arr_get :: "'a list \<Rightarrow> int \<Rightarrow> 'a option" where
  "arr_get a i = (if 0 \<le> i \<and> i < int (length a) then Some (a ! nat i) else None)"

definition arr_set :: "'a list \<Rightarrow> int \<Rightarrow> 'a \<Rightarrow> 'a list option" where
  "arr_set a i v = (if 0 \<le> i \<and> i < int (length a) then Some (a[nat i := v]) else None)"

subsection \<open>Mixer\<close>

text \<open>
  \<^verbatim>\<open>dot_product(short *t, short *w, int n)\<close> (the \<^verbatim>\<open>NOASM\<close> version).  The
  pointer \<^verbatim>\<open>w\<close> is an array with an offset; \<open>n\<close> is already rounded in the
  loop function.
\<close>

function dot_product_loop ::
  "short list \<Rightarrow> short list \<Rightarrow> int \<Rightarrow> int \<Rightarrow> int \<Rightarrow> int \<Rightarrow> int option" where
  "dot_product_loop t w off n i acc =
     (if i < n then
        (if 0 \<le> i \<and> i + 1 < int (length t) \<and> 0 \<le> off + i \<and> off + i + 1 < int (length w)
         then dot_product_loop t w off n (i + 2)
                (acc + drop_bit 8 (sint (t ! nat i) * sint (w ! nat (off + i))
                                   + sint (t ! nat (i + 1)) * sint (w ! nat (off + i + 1))))
         else None)
      else Some acc)"
  by pat_completeness auto
termination
  by (relation "measure (\<lambda>(t, w, off, n, i, acc). nat (n - i))") auto

declare dot_product_loop.simps [simp del]

definition dot_product :: "short list \<Rightarrow> short list \<Rightarrow> int \<Rightarrow> int \<Rightarrow> int option" where
  "dot_product t w off n = dot_product_loop t w off ((n + 7) AND (- 8)) 0 0"

text \<open>
  \<^verbatim>\<open>train(short *t, short *w, int n, int err)\<close> (the \<^verbatim>\<open>NOASM\<close> version); the
  result is the array behind \<^verbatim>\<open>w\<close>.
\<close>

function train_loop ::
  "short list \<Rightarrow> short list \<Rightarrow> int \<Rightarrow> int \<Rightarrow> int \<Rightarrow> int \<Rightarrow> short list option" where
  "train_loop t w off n err i =
     (if i < n then
        (if 0 \<le> i \<and> i < int (length t) \<and> 0 \<le> off + i \<and> off + i < int (length w)
         then (let wt = sint (w ! nat (off + i))
                          + drop_bit 1 (drop_bit 16 (sint (t ! nat i) * err * 2) + 1);
                   wt1 = (if wt < - 32768 then - 32768 else wt);
                   wt2 = (if wt1 > 32767 then 32767 else wt1)
               in train_loop t (w[nat (off + i) := word_of_int wt2]) off n err (i + 1))
         else None)
      else Some w)"
  by pat_completeness auto
termination
  by (relation "measure (\<lambda>(t, w, off, n, err, i). nat (n - i))") auto

declare train_loop.simps [simp del]

definition train :: "short list \<Rightarrow> short list \<Rightarrow> int \<Rightarrow> int \<Rightarrow> int \<Rightarrow> short list option" where
  "train t w off n err = train_loop t w off ((n + 7) AND (- 8)) err 0"

text \<open>
  The members of \<^verbatim>\<open>class Mixer\<close>.  The member \<^verbatim>\<open>Mixer* mp\<close> is set by the
  constructor alone, to a \<^verbatim>\<open>Mixer(S, 1, 1, 0x7fff)\<close> when \<^verbatim>\<open>S > 1\<close> and to
  null otherwise; the mixer it points to has therefore no \<^verbatim>\<open>mp\<close> of its
  own.  The record \<open>MixerCore\<close> holds the members other than \<^verbatim>\<open>mp\<close> (it
  is the type of the second mixer), \<open>Mixer\<close> adds \<^verbatim>\<open>mp\<close>; the methods that
  do not read \<^verbatim>\<open>mp\<close> are defined on both.
\<close>

record MixerCore =
  Mixer_N :: int
  Mixer_M :: int
  Mixer_S :: int
  Mixer_wx :: "short list"
  Mixer_cxt :: "int list"
  Mixer_ncxt :: int
  Mixer_base :: int
  Mixer_pr :: "int list"
  Mixer_tx :: "short list"
  Mixer_nx :: int

record Mixer = MixerCore +
  Mixer_mp :: "MixerCore option"

text \<open>The constructor \<^verbatim>\<open>Mixer::Mixer(int n, int m, int s, int w)\<close>.\<close>

definition MixerCore_new :: "int \<Rightarrow> int \<Rightarrow> int \<Rightarrow> int \<Rightarrow> MixerCore" where
  "MixerCore_new n m s w =
     (let N = (n + 7) AND (- 8)
      in \<lparr>Mixer_N = N, Mixer_M = m, Mixer_S = s,
          Mixer_wx = replicate (nat (N * m)) (word_of_int w),
          Mixer_cxt = replicate (nat s) 0, Mixer_ncxt = 0, Mixer_base = 0,
          Mixer_pr = replicate (nat s) 2048,
          Mixer_tx = replicate (nat N) 0, Mixer_nx = 0\<rparr>)"

definition Mixer_new :: "int \<Rightarrow> int \<Rightarrow> int \<Rightarrow> int \<Rightarrow> Mixer" where
  "Mixer_new n m s w =
     MixerCore.extend (MixerCore_new n m s w)
       \<lparr>Mixer_mp = (if s > 1 then Some (MixerCore_new s 1 1 0x7fff) else None)\<rparr>"

text \<open>The error of \<^verbatim>\<open>Mixer::update\<close> for context slot \<open>i\<close>: \<^verbatim>\<open>((y<<12)-pr[i])*7\<close>.\<close>

definition Mixer_err :: "gctx \<Rightarrow> 'a MixerCore_scheme \<Rightarrow> int \<Rightarrow> int" where
  "Mixer_err g m i = (push_bit 12 (y g) - Mixer_pr m ! nat i) * 7"

text \<open>The loop of \<^verbatim>\<open>Mixer::update\<close>, from \<open>i\<close> on.\<close>

function Mixer_update_loop ::
  "gctx \<Rightarrow> int \<Rightarrow> 'a MixerCore_scheme \<Rightarrow> 'a MixerCore_scheme option" where
  "Mixer_update_loop g i m =
     (if i < Mixer_ncxt m then
        (if 0 \<le> i \<and> i < int (length (Mixer_pr m)) \<and> i < int (length (Mixer_cxt m))
         then (case train (Mixer_tx m) (Mixer_wx m) (Mixer_cxt m ! nat i * Mixer_N m)
                      (Mixer_nx m) (Mixer_err g m i) of
                 None \<Rightarrow> None
               | Some w \<Rightarrow> Mixer_update_loop g (i + 1) (m\<lparr>Mixer_wx := w\<rparr>))
         else None)
      else Some m)"
  by pat_completeness auto
termination
  by (relation "measure (\<lambda>(g, i, m). nat (Mixer_ncxt m - i))") auto

declare Mixer_update_loop.simps [simp del]

text \<open>\<^verbatim>\<open>void update()\<close>\<close>

definition Mixer_update :: "gctx \<Rightarrow> 'a MixerCore_scheme \<Rightarrow> 'a MixerCore_scheme option" where
  "Mixer_update g m =
     (case Mixer_update_loop g 0 m of
        None \<Rightarrow> None
      | Some m1 \<Rightarrow> Some (m1\<lparr>Mixer_ncxt := 0, Mixer_base := 0, Mixer_nx := 0\<rparr>))"

text \<open>\<^verbatim>\<open>void update2()\<close>; \<^verbatim>\<open>((y<<12)-base)*3/2\<close> is \<^verbatim>\<open>(((y<<12)-base)*3)/2\<close>.\<close>

definition Mixer_update2 :: "gctx \<Rightarrow> 'a MixerCore_scheme \<Rightarrow> 'a MixerCore_scheme option" where
  "Mixer_update2 g m =
     (case train (Mixer_tx m) (Mixer_wx m) 0 (Mixer_nx m)
             (((push_bit 12 (y g) - Mixer_base m) * 3) sdiv 2) of
        None \<Rightarrow> None
      | Some w \<Rightarrow> Some (m\<lparr>Mixer_wx := w, Mixer_nx := 0\<rparr>))"

text \<open>\<^verbatim>\<open>void add(int x)\<close>: \<^verbatim>\<open>tx[nx++]=x\<close>, the \<^verbatim>\<open>int\<close> stored as a \<^verbatim>\<open>short\<close>.\<close>

definition Mixer_add :: "int \<Rightarrow> 'a MixerCore_scheme \<Rightarrow> 'a MixerCore_scheme option" where
  "Mixer_add x m =
     (case arr_set (Mixer_tx m) (Mixer_nx m) (word_of_int x) of
        None \<Rightarrow> None
      | Some t \<Rightarrow> Some (m\<lparr>Mixer_tx := t, Mixer_nx := Mixer_nx m + 1\<rparr>))"

text \<open>\<^verbatim>\<open>void mul(int x)\<close>: \<^verbatim>\<open>int z=tx[nx]; z=z*x/4; tx[nx++]=z;\<close>\<close>

definition Mixer_mul :: "int \<Rightarrow> 'a MixerCore_scheme \<Rightarrow> 'a MixerCore_scheme option" where
  "Mixer_mul x m =
     (case arr_get (Mixer_tx m) (Mixer_nx m) of
        None \<Rightarrow> None
      | Some z0 \<Rightarrow>
          (let z = sint z0;
               z1 = (z * x) sdiv 4
           in (case arr_set (Mixer_tx m) (Mixer_nx m) (word_of_int z1) of
                 None \<Rightarrow> None
               | Some t \<Rightarrow> Some (m\<lparr>Mixer_tx := t, Mixer_nx := Mixer_nx m + 1\<rparr>))))"

text \<open>\<^verbatim>\<open>void set(int cx, int range)\<close>: \<^verbatim>\<open>cxt[ncxt++]=base+cx; base+=range;\<close>\<close>

definition Mixer_set :: "int \<Rightarrow> int \<Rightarrow> 'a MixerCore_scheme \<Rightarrow> 'a MixerCore_scheme option" where
  "Mixer_set cx rng m =
     (case arr_set (Mixer_cxt m) (Mixer_ncxt m) (Mixer_base m + cx) of
        None \<Rightarrow> None
      | Some c \<Rightarrow> Some (m\<lparr>Mixer_cxt := c, Mixer_ncxt := Mixer_ncxt m + 1,
                           Mixer_base := Mixer_base m + rng\<rparr>))"

text \<open>The first statement of \<^verbatim>\<open>p()\<close>: \<^verbatim>\<open>while (nx&7) tx[nx++]=0;\<close>\<close>

function Mixer_pad :: "'a MixerCore_scheme \<Rightarrow> 'a MixerCore_scheme option" where
  "Mixer_pad m =
     (if Mixer_nx m AND 7 \<noteq> 0 then
        (case arr_set (Mixer_tx m) (Mixer_nx m) 0 of
           None \<Rightarrow> None
         | Some t \<Rightarrow> Mixer_pad (m\<lparr>Mixer_tx := t, Mixer_nx := Mixer_nx m + 1\<rparr>))
      else Some m)"
  by pat_completeness auto
termination
proof (relation "measure (\<lambda>m. nat ((- Mixer_nx m) mod 8))")
  show "wf (measure (\<lambda>m. nat ((- Mixer_nx m) mod 8)))" by simp
next
  fix m :: "'a MixerCore_scheme" and t
  assume a: "Mixer_nx m AND 7 \<noteq> 0"
  have "Mixer_nx m AND 7 = Mixer_nx m mod 8"
    using take_bit_eq_mod [of 3 "Mixer_nx m"] take_bit_eq_mask [of 3 "Mixer_nx m"]
    by (simp add: mask_eq_exp_minus_1)
  then have "Mixer_nx m mod 8 \<noteq> 0" using a by simp
  then have "(- (Mixer_nx m + 1)) mod 8 < (- Mixer_nx m) mod 8" by presburger
  then show "(m\<lparr>Mixer_tx := t, Mixer_nx := Mixer_nx m + 1\<rparr>, m)
               \<in> measure (\<lambda>m. nat ((- Mixer_nx m) mod 8))"
    by simp
qed

declare Mixer_pad.simps [simp del]

text \<open>
  The branch of \<^verbatim>\<open>p()\<close> for a mixer without \<^verbatim>\<open>mp\<close>:
  \<^verbatim>\<open>int z=dot_product(&tx[0], &wx[0], nx); base=squash((z*15)>>13); return squash(z>>9);\<close>
\<close>

definition Mixer_direct :: "'a MixerCore_scheme \<Rightarrow> (int \<times> 'a MixerCore_scheme) option" where
  "Mixer_direct m =
     (case dot_product (Mixer_tx m) (Mixer_wx m) 0 (Mixer_nx m) of
        None \<Rightarrow> None
      | Some z \<Rightarrow> Some (squash (drop_bit 9 z),
                         m\<lparr>Mixer_base := squash (drop_bit 13 (z * 15))\<rparr>))"

text \<open>\<^verbatim>\<open>p()\<close> of the second mixer (\<^verbatim>\<open>mp->p()\<close>), whose \<^verbatim>\<open>mp\<close> is null.\<close>

definition MixerCore_p :: "MixerCore \<Rightarrow> (int \<times> MixerCore) option" where
  "MixerCore_p c = (case Mixer_pad c of None \<Rightarrow> None | Some c1 \<Rightarrow> Mixer_direct c1)"

text \<open>
  The loop of \<^verbatim>\<open>p()\<close> over the selected contexts, from \<open>i\<close> on: the dot
  product with weight set \<^verbatim>\<open>cxt[i]\<close>, \<^verbatim>\<open>dp=(dp*9)>>9\<close>, \<^verbatim>\<open>pr[i]=squash(dp)\<close>,
  \<^verbatim>\<open>mp->add(dp)\<close>.
\<close>

function Mixer_p_loop :: "int \<Rightarrow> Mixer \<Rightarrow> MixerCore \<Rightarrow> (Mixer \<times> MixerCore) option" where
  "Mixer_p_loop i m c =
     (if i < Mixer_ncxt m then
        (if 0 \<le> i \<and> i < int (length (Mixer_cxt m)) \<and> i < int (length (Mixer_pr m))
         then (case dot_product (Mixer_tx m) (Mixer_wx m) (Mixer_cxt m ! nat i * Mixer_N m)
                      (Mixer_nx m) of
                 None \<Rightarrow> None
               | Some dp0 \<Rightarrow>
                   (let dp = drop_bit 9 (dp0 * 9)
                    in (case Mixer_add dp c of
                          None \<Rightarrow> None
                        | Some c1 \<Rightarrow>
                            Mixer_p_loop (i + 1)
                              (m\<lparr>Mixer_pr := (Mixer_pr m)[nat i := squash dp]\<rparr>) c1)))
         else None)
      else Some (m, c))"
  by pat_completeness auto
termination
  by (relation "measure (\<lambda>(i, m, c). nat (Mixer_ncxt m - i))") auto

declare Mixer_p_loop.simps [simp del]

text \<open>\<^verbatim>\<open>int p()\<close> of a mixer with the member \<^verbatim>\<open>mp\<close>.\<close>

definition Mixer_p :: "gctx \<Rightarrow> Mixer \<Rightarrow> (int \<times> Mixer) option" where
  "Mixer_p g m =
     (case Mixer_pad m of
        None \<Rightarrow> None
      | Some m1 \<Rightarrow>
          (case Mixer_mp m1 of
             Some c \<Rightarrow>
               (case Mixer_update2 g c of
                  None \<Rightarrow> None
                | Some c1 \<Rightarrow>
                    (case Mixer_p_loop 0 m1 c1 of
                       None \<Rightarrow> None
                     | Some (m2, c2) \<Rightarrow>
                         (case MixerCore_p c2 of
                            None \<Rightarrow> None
                          | Some (r, c3) \<Rightarrow> Some (r, m2\<lparr>Mixer_mp := Some c3\<rparr>))))
           | None \<Rightarrow> Mixer_direct m1))"

text \<open>
  The mixers a program can have: one made by the constructor (with the
  constructor's assertion \<^verbatim>\<open>n>0 && N>0 && M>0\<close>, and at least one context
  set), changed by the public methods, called in any order with any
  arguments, and by assignments to the public members \<^verbatim>\<open>nx\<close> and \<^verbatim>\<open>tx\<close>
  (\<^verbatim>\<open>contextModel2\<close> assigns \<^verbatim>\<open>m.nx\<close>).  A call that leaves an array is not
  a step.
\<close>

inductive Mixer_reach :: "Mixer \<Rightarrow> bool" where
  reach_new: "0 < n \<Longrightarrow> 0 < m \<Longrightarrow> 0 < s \<Longrightarrow> Mixer_reach (Mixer_new n m s w)"
| reach_update: "Mixer_reach m \<Longrightarrow> Mixer_update g m = Some m' \<Longrightarrow> Mixer_reach m'"
| reach_add: "Mixer_reach m \<Longrightarrow> Mixer_add x m = Some m' \<Longrightarrow> Mixer_reach m'"
| reach_mul: "Mixer_reach m \<Longrightarrow> Mixer_mul x m = Some m' \<Longrightarrow> Mixer_reach m'"
| reach_set: "Mixer_reach m \<Longrightarrow> Mixer_set cx rng m = Some m' \<Longrightarrow> Mixer_reach m'"
| reach_p: "Mixer_reach m \<Longrightarrow> Mixer_p g m = Some (r, m') \<Longrightarrow> Mixer_reach m'"
| reach_nx: "Mixer_reach m \<Longrightarrow> Mixer_reach (m\<lparr>Mixer_nx := k\<rparr>)"
| reach_tx: "Mixer_reach m \<Longrightarrow> length t = length (Mixer_tx m) \<Longrightarrow> Mixer_reach (m\<lparr>Mixer_tx := t\<rparr>)"

text \<open>
  The stored predictions are well-formed: every \<^verbatim>\<open>pr[i]\<close> is the initial 2048
  or an output of \<^verbatim>\<open>squash\<close>, and \<^verbatim>\<open>ncxt\<close> does not exceed the sizes of
  \<^verbatim>\<open>pr\<close> and \<^verbatim>\<open>cxt\<close>.
\<close>

definition pr_value :: "int \<Rightarrow> bool" where
  "pr_value v = (v = 2048 \<or> (\<exists>d. v = squash d))"

definition Mixer_pr_ok :: "'a MixerCore_scheme \<Rightarrow> bool" where
  "Mixer_pr_ok m =
     (0 \<le> Mixer_ncxt m \<and> Mixer_ncxt m \<le> int (length (Mixer_pr m))
      \<and> length (Mixer_cxt m) = length (Mixer_pr m)
      \<and> list_all pr_value (Mixer_pr m))"

text \<open>Example mixers: a fresh one with eight inputs, and the same after \<^verbatim>\<open>add(8)\<close>.\<close>

definition mixer8 :: Mixer where
  "mixer8 = Mixer_new 8 1 1 0"

definition mixer8_add8 :: Mixer where
  "mixer8_add8 = mixer8\<lparr>Mixer_tx := [8, 0, 0, 0, 0, 0, 0, 0], Mixer_nx := 1\<rparr>"

definition mixer8_set :: Mixer where
  "mixer8_set = mixer8\<lparr>Mixer_cxt := [0], Mixer_ncxt := 1, Mixer_base := 1\<rparr>"

subsection \<open>The state table\<close>

text \<open>
  \<^verbatim>\<open>static const U8 State_table[256][4]\<close>: the 253 rows of the source's
  initialiser; the rows 253 to 255 (``reserved'') are not written there and
  are zero.
\<close>

definition State_table :: "U8 list list" where
  "State_table = [
[1, 2, 0, 0], [3, 5, 1, 0], [4, 6, 0, 1], [7, 10, 2, 0],
     [8, 12, 1, 1], [9, 13, 1, 1], [11, 14, 0, 2], [15, 19, 3, 0],
     [16, 23, 2, 1], [17, 24, 2, 1], [18, 25, 2, 1], [20, 27, 1, 2],
     [21, 28, 1, 2], [22, 29, 1, 2], [26, 30, 0, 3], [31, 33, 4, 0],
     [32, 35, 3, 1], [32, 35, 3, 1], [32, 35, 3, 1], [32, 35, 3, 1],
     [34, 37, 2, 2], [34, 37, 2, 2], [34, 37, 2, 2], [34, 37, 2, 2],
     [34, 37, 2, 2], [34, 37, 2, 2], [36, 39, 1, 3], [36, 39, 1, 3],
     [36, 39, 1, 3], [36, 39, 1, 3], [38, 40, 0, 4], [41, 43, 5, 0],
     [42, 45, 4, 1], [42, 45, 4, 1], [44, 47, 3, 2], [44, 47, 3, 2],
     [46, 49, 2, 3], [46, 49, 2, 3], [48, 51, 1, 4], [48, 51, 1, 4],
     [50, 52, 0, 5], [53, 43, 6, 0], [54, 57, 5, 1], [54, 57, 5, 1],
     [56, 59, 4, 2], [56, 59, 4, 2], [58, 61, 3, 3], [58, 61, 3, 3],
     [60, 63, 2, 4], [60, 63, 2, 4], [62, 65, 1, 5], [62, 65, 1, 5],
     [50, 66, 0, 6], [67, 55, 7, 0], [68, 57, 6, 1], [68, 57, 6, 1],
     [70, 73, 5, 2], [70, 73, 5, 2], [72, 75, 4, 3], [72, 75, 4, 3],
     [74, 77, 3, 4], [74, 77, 3, 4], [76, 79, 2, 5], [76, 79, 2, 5],
     [62, 81, 1, 6], [62, 81, 1, 6], [64, 82, 0, 7], [83, 69, 8, 0],
     [84, 71, 7, 1], [84, 71, 7, 1], [86, 73, 6, 2], [86, 73, 6, 2],
     [44, 59, 5, 3], [44, 59, 5, 3], [58, 61, 4, 4], [58, 61, 4, 4],
     [60, 49, 3, 5], [60, 49, 3, 5], [76, 89, 2, 6], [76, 89, 2, 6],
     [78, 91, 1, 7], [78, 91, 1, 7], [80, 92, 0, 8], [93, 69, 9, 0],
     [94, 87, 8, 1], [94, 87, 8, 1], [96, 45, 7, 2], [96, 45, 7, 2],
     [48, 99, 2, 7], [48, 99, 2, 7], [88, 101, 1, 8], [88, 101, 1, 8],
     [80, 102, 0, 9], [103, 69, 10, 0], [104, 87, 9, 1], [104, 87, 9, 1],
     [106, 57, 8, 2], [106, 57, 8, 2], [62, 109, 2, 8], [62, 109, 2, 8],
     [88, 111, 1, 9], [88, 111, 1, 9], [80, 112, 0, 10], [113, 85, 11, 0],
     [114, 87, 10, 1], [114, 87, 10, 1], [116, 57, 9, 2], [116, 57, 9, 2],
     [62, 119, 2, 9], [62, 119, 2, 9], [88, 121, 1, 10], [88, 121, 1, 10],
     [90, 122, 0, 11], [123, 85, 12, 0], [124, 97, 11, 1], [124, 97, 11, 1],
     [126, 57, 10, 2], [126, 57, 10, 2], [62, 129, 2, 10], [62, 129, 2, 10],
     [98, 131, 1, 11], [98, 131, 1, 11], [90, 132, 0, 12], [133, 85, 13, 0],
     [134, 97, 12, 1], [134, 97, 12, 1], [136, 57, 11, 2], [136, 57, 11, 2],
     [62, 139, 2, 11], [62, 139, 2, 11], [98, 141, 1, 12], [98, 141, 1, 12],
     [90, 142, 0, 13], [143, 95, 14, 0], [144, 97, 13, 1], [144, 97, 13, 1],
     [68, 57, 12, 2], [68, 57, 12, 2], [62, 81, 2, 12], [62, 81, 2, 12],
     [98, 147, 1, 13], [98, 147, 1, 13], [100, 148, 0, 14], [149, 95, 15, 0],
     [150, 107, 14, 1], [150, 107, 14, 1], [108, 151, 1, 14], [108, 151, 1, 14],
     [100, 152, 0, 15], [153, 95, 16, 0], [154, 107, 15, 1], [108, 155, 1, 15],
     [100, 156, 0, 16], [157, 95, 17, 0], [158, 107, 16, 1], [108, 159, 1, 16],
     [100, 160, 0, 17], [161, 105, 18, 0], [162, 107, 17, 1], [108, 163, 1, 17],
     [110, 164, 0, 18], [165, 105, 19, 0], [166, 117, 18, 1], [118, 167, 1, 18],
     [110, 168, 0, 19], [169, 105, 20, 0], [170, 117, 19, 1], [118, 171, 1, 19],
     [110, 172, 0, 20], [173, 105, 21, 0], [174, 117, 20, 1], [118, 175, 1, 20],
     [110, 176, 0, 21], [177, 105, 22, 0], [178, 117, 21, 1], [118, 179, 1, 21],
     [110, 180, 0, 22], [181, 115, 23, 0], [182, 117, 22, 1], [118, 183, 1, 22],
     [120, 184, 0, 23], [185, 115, 24, 0], [186, 127, 23, 1], [128, 187, 1, 23],
     [120, 188, 0, 24], [189, 115, 25, 0], [190, 127, 24, 1], [128, 191, 1, 24],
     [120, 192, 0, 25], [193, 115, 26, 0], [194, 127, 25, 1], [128, 195, 1, 25],
     [120, 196, 0, 26], [197, 115, 27, 0], [198, 127, 26, 1], [128, 199, 1, 26],
     [120, 200, 0, 27], [201, 115, 28, 0], [202, 127, 27, 1], [128, 203, 1, 27],
     [120, 204, 0, 28], [205, 115, 29, 0], [206, 127, 28, 1], [128, 207, 1, 28],
     [120, 208, 0, 29], [209, 125, 30, 0], [210, 127, 29, 1], [128, 211, 1, 29],
     [130, 212, 0, 30], [213, 125, 31, 0], [214, 137, 30, 1], [138, 215, 1, 30],
     [130, 216, 0, 31], [217, 125, 32, 0], [218, 137, 31, 1], [138, 219, 1, 31],
     [130, 220, 0, 32], [221, 125, 33, 0], [222, 137, 32, 1], [138, 223, 1, 32],
     [130, 224, 0, 33], [225, 125, 34, 0], [226, 137, 33, 1], [138, 227, 1, 33],
     [130, 228, 0, 34], [229, 125, 35, 0], [230, 137, 34, 1], [138, 231, 1, 34],
     [130, 232, 0, 35], [233, 125, 36, 0], [234, 137, 35, 1], [138, 235, 1, 35],
     [130, 236, 0, 36], [237, 125, 37, 0], [238, 137, 36, 1], [138, 239, 1, 36],
     [130, 240, 0, 37], [241, 125, 38, 0], [242, 137, 37, 1], [138, 243, 1, 37],
     [130, 244, 0, 38], [245, 135, 39, 0], [246, 137, 38, 1], [138, 247, 1, 38],
     [140, 248, 0, 39], [249, 135, 40, 0], [250, 69, 39, 1], [80, 251, 1, 39],
     [140, 252, 0, 40], [249, 135, 41, 0], [250, 69, 40, 1], [80, 251, 1, 40],
     [140, 252, 0, 41],
     [0, 0, 0, 0], [0, 0, 0, 0], [0, 0, 0, 0]]"

text \<open>\<^verbatim>\<open>#define nex(state,sel) State_table[state][sel]\<close>, as an \<^verbatim>\<open>int\<close>.\<close>

definition nex :: "int \<Rightarrow> int \<Rightarrow> int" where
  "nex state sel = uint (State_table ! nat state ! nat sel)"

subsection \<open>StateMap\<close>

text \<open>The members of \<^verbatim>\<open>class StateMap\<close>: \<^verbatim>\<open>int cxt\<close> and \<^verbatim>\<open>U16 t[256]\<close>.\<close>

record StateMap =
  StateMap_cxt :: int
  StateMap_t :: "U16 list"

text \<open>
  The constructor: \<^verbatim>\<open>cxt(0)\<close> and, for every state \<open>i\<close>,
  \<^verbatim>\<open>int n0=nex(i,2); int n1=nex(i,3); if (n0==0) n1*=128; if (n1==0) n0*=128;
  t[i] = 65536*(n1+1)/(n0+n1+2);\<close>
\<close>

definition StateMap_init_entry :: "int \<Rightarrow> U16" where
  "StateMap_init_entry i =
     (let n0 = nex i 2;
          n1 = nex i 3;
          n1a = (if n0 = 0 then n1 * 128 else n1);
          n0a = (if n1a = 0 then n0 * 128 else n0)
      in word_of_int ((65536 * (n1a + 1)) sdiv (n0a + n1a + 2)))"

definition StateMap_new :: StateMap where
  "StateMap_new = \<lparr>StateMap_cxt = 0, StateMap_t = map (\<lambda>i. StateMap_init_entry (int i)) [0..<256]\<rparr>"

text \<open>The expression \<^verbatim>\<open>q + ( (sm_add_y - q) >> sm_shft)\<close> of \<^verbatim>\<open>StateMap::p\<close>.\<close>

definition StateMap_adjust :: "gctx \<Rightarrow> int \<Rightarrow> int" where
  "StateMap_adjust g q = q + drop_bit (nat (sm_shft g)) (sm_add_y g - q)"

text \<open>
  \<^verbatim>\<open>int p(int cx)\<close>: \<^verbatim>\<open>int q=t[cxt]; t[cxt]=q + ( (sm_add_y - q) >> sm_shft);
  return t[cxt=cx] >> 4;\<close>  The store keeps the low 16 bits.
\<close>

definition StateMap_p :: "gctx \<Rightarrow> int \<Rightarrow> StateMap \<Rightarrow> (int \<times> StateMap) option" where
  "StateMap_p g cx sm =
     (case arr_get (StateMap_t sm) (StateMap_cxt sm) of
        None \<Rightarrow> None
      | Some q0 \<Rightarrow>
          (case arr_set (StateMap_t sm) (StateMap_cxt sm)
                  (word_of_int (StateMap_adjust g (uint q0))) of
             None \<Rightarrow> None
           | Some t1 \<Rightarrow>
               (case arr_get t1 cx of
                  None \<Rightarrow> None
                | Some v \<Rightarrow>
                    Some (drop_bit 4 (uint v), sm\<lparr>StateMap_cxt := cx, StateMap_t := t1\<rparr>))))"

subsection \<open>The hash element of ContextMap\<close>

text \<open>
  \<^verbatim>\<open>class ContextMap::E\<close>, the 64-byte bucket: \<^verbatim>\<open>U16 chk[7]\<close>, \<^verbatim>\<open>U8 last\<close> and
  \<^verbatim>\<open>U8 bh[7][7]\<close>.  Both arrays have their seven elements by type; the
  predicate \<open>E_wf\<close> says so for the lists.  Slot numbers (the source's
  \<^verbatim>\<open>int i\<close>, \<^verbatim>\<open>bi\<close>, which run from 0 to 6) are natural numbers.
\<close>

record E =
  E_chk :: "U16 list"
  E_last :: U8
  E_bh :: "U8 list list"

definition E_wf :: "E \<Rightarrow> bool" where
  "E_wf e = (length (E_chk e) = 7 \<and> length (E_bh e) = 7 \<and> (\<forall>i < 7. length (E_bh e ! i) = 7))"

text \<open>A bucket of a new table: \<^verbatim>\<open>Array\<close> allocates with \<^verbatim>\<open>calloc\<close>, all bytes zero.\<close>

definition E_zero :: E where
  "E_zero = \<lparr>E_chk = replicate 7 0, E_last = 0, E_bh = replicate 7 (replicate 7 0)\<rparr>"

text \<open>
  The loop of \<^verbatim>\<open>E::get\<close> from \<open>i\<close> on, with the locals \<^verbatim>\<open>b\<close> and \<^verbatim>\<open>bi\<close>, and
  the final \<^verbatim>\<open>return\<close> after it.  The returned pointer \<^verbatim>\<open>&bh[i][0]\<close> is the
  slot number \<open>i\<close>.
\<close>

function E_get_loop :: "E \<Rightarrow> U16 \<Rightarrow> nat \<Rightarrow> int \<Rightarrow> nat \<Rightarrow> nat \<times> E" where
  "E_get_loop e ch i b bi =
     (if i < 7 then
        (if E_chk e ! i = ch
         then (i, e\<lparr>E_last := push_bit 4 (E_last e) OR of_nat i\<rparr>)
         else (let pri = uint (E_bh e ! i ! 0)
               in (if unat (E_last e AND 15) \<noteq> i \<and> unat (drop_bit 4 (E_last e)) \<noteq> i \<and> pri < b
                   then E_get_loop e ch (i + 1) pri i
                   else E_get_loop e ch (i + 1) b bi)))
      else (bi, e\<lparr>E_last := 0xf0 OR of_nat bi,
                  E_chk := (E_chk e)[bi := ch],
                  E_bh := (E_bh e)[bi := replicate 7 0]\<rparr>))"
  by pat_completeness auto
termination
  by (relation "measure (\<lambda>(e, ch, i, b, bi). 7 - i)") auto

declare E_get_loop.simps [simp del]

text \<open>
  \<^verbatim>\<open>U8* ContextMap::E::get(U16 ch, int j)\<close>.  \<^verbatim>\<open>chk[last&15]\<close> is outside
  \<^verbatim>\<open>chk\<close> when the low nibble of \<^verbatim>\<open>last\<close> is 7 or more.
\<close>

definition E_get :: "U16 \<Rightarrow> int \<Rightarrow> E \<Rightarrow> (nat \<times> E) option" where
  "E_get ch j e =
     (let ch1 = ch + word_of_int j
      in (if unat (E_last e AND 15) < length (E_chk e)
          then (if E_chk e ! unat (E_last e AND 15) = ch1
                then Some (unat (E_last e AND 15), e)
                else Some (E_get_loop e ch1 0 0xffff 0))
          else None))"

text \<open>
  A lookup misses when no slot holds the checksum; the slot it returns is
  then a replaced one.
\<close>

definition E_misses :: "E \<Rightarrow> U16 \<Rightarrow> bool" where
  "E_misses e c = (c \<notin> set (E_chk e))"

text \<open>
  What happens to a bucket between two lookups: other lookups, and stores
  of a state byte \<^verbatim>\<open>bh[s][k]\<close> through a pointer that a lookup returned.
  \<open>E_run\<close> gives the bucket after a list of them, with the slots that the
  lookups replaced.
\<close>

datatype E_op = Lookup U16 int | Store nat nat U8

fun E_run :: "E_op list \<Rightarrow> E \<Rightarrow> (E \<times> nat list) option" where
  "E_run [] e = Some (e, [])"
| "E_run (Lookup ch j # ops) e =
     (case E_get ch j e of
        None \<Rightarrow> None
      | Some (s, e1) \<Rightarrow>
          (case E_run ops e1 of
             None \<Rightarrow> None
           | Some (e2, rs) \<Rightarrow>
               Some (e2, (if E_misses e (ch + word_of_int j) then [s] else []) @ rs)))"
| "E_run (Store s k v # ops) e =
     (if s < 7 \<and> k < 7
      then E_run ops (e\<lparr>E_bh := (E_bh e)[s := (E_bh e ! s)[k := v]]\<rparr>)
      else None)"

text \<open>
  The buckets that arise from a zeroed one: the low nibble of \<^verbatim>\<open>last\<close> is a
  slot, no checksum other than 0 is in two slots, and when the slot in the
  low nibble of \<^verbatim>\<open>last\<close> has checksum 0 it is the first such slot.
\<close>

definition E_inv :: "E \<Rightarrow> bool" where
  "E_inv e =
     (E_wf e \<and> unat (E_last e AND 15) < 7
      \<and> (\<forall>i < 7. \<forall>k < 7. E_chk e ! i = E_chk e ! k \<and> E_chk e ! i \<noteq> 0 \<longrightarrow> i = k)
      \<and> (\<forall>i < 7. E_chk e ! unat (E_last e AND 15) = 0 \<and> E_chk e ! i = 0
                   \<longrightarrow> unat (E_last e AND 15) \<le> i))"

text \<open>
  For the proofs: slot \<open>i\<close> is a candidate for replacement when it is
  neither of the two slots in \<^verbatim>\<open>last\<close>; its priority is \<^verbatim>\<open>bh[i][0]\<close>; and
  \<open>E_best e n b bi\<close> says what the locals \<^verbatim>\<open>b\<close> and \<^verbatim>\<open>bi\<close> hold when the loop
  has passed the slots below \<open>n\<close>: the initial values while no candidate has
  been seen, else the first candidate of least priority.
\<close>

definition E_cand :: "E \<Rightarrow> nat \<Rightarrow> bool" where
  "E_cand e i = (unat (E_last e AND 15) \<noteq> i \<and> unat (drop_bit 4 (E_last e)) \<noteq> i)"

definition E_pri :: "E \<Rightarrow> nat \<Rightarrow> int" where
  "E_pri e i = uint (E_bh e ! i ! 0)"

definition E_best :: "E \<Rightarrow> nat \<Rightarrow> int \<Rightarrow> nat \<Rightarrow> bool" where
  "E_best e n b bi =
     ((b = 0xffff \<and> bi = 0 \<and> (\<forall>i < n. \<not> E_cand e i))
      \<or> (bi < n \<and> E_cand e bi \<and> b = E_pri e bi
          \<and> (\<forall>i < n. E_cand e i \<longrightarrow> b \<le> E_pri e i)
          \<and> (\<forall>i < bi. E_cand e i \<longrightarrow> b < E_pri e i)))"

text \<open>The bucket after a lookup that replaced slot \<open>s\<close> by checksum \<open>c\<close>.\<close>

definition E_replaced :: "E \<Rightarrow> nat \<Rightarrow> U16 \<Rightarrow> E" where
  "E_replaced e s c =
     e\<lparr>E_last := 0xf0 OR of_nat s,
       E_chk := (E_chk e)[s := c],
       E_bh := (E_bh e)[s := replicate 7 0]\<rparr>"

text \<open>Slot \<open>s\<close> is the first slot of the bucket that holds the checksum \<open>c\<close>.\<close>

definition E_holds :: "E \<Rightarrow> U16 \<Rightarrow> nat \<Rightarrow> bool" where
  "E_holds e c s = (s < 7 \<and> E_chk e ! s = c \<and> (\<forall>i < s. E_chk e ! i \<noteq> c))"

text \<open>
  An example: the bucket after the lookups of the checksums 1, 2 and 3 in a
  zeroed bucket, with a store of state 5 in slot 1 before the last one.
\<close>

definition E_after_three :: E where
  "E_after_three =
     \<lparr>E_chk = [2, 1, 3, 0, 0, 0, 0], E_last = 242,
      E_bh = [[0, 0, 0, 0, 0, 0, 0], [5, 0, 0, 0, 0, 0, 0], [0, 0, 0, 0, 0, 0, 0],
              [0, 0, 0, 0, 0, 0, 0], [0, 0, 0, 0, 0, 0, 0], [0, 0, 0, 0, 0, 0, 0],
              [0, 0, 0, 0, 0, 0, 0]]\<rparr>"

subsection \<open>ilog\<close>

text \<open>
  The constructor \<^verbatim>\<open>Ilog::Ilog\<close>: \<^verbatim>\<open>U32 x=14155776; for (int i=2; i<65536; ++i)
  { x+=774541002/(i*2-1); t[i]=x>>24; }\<close>.  \<open>Ilog_x i\<close> is \<^verbatim>\<open>x\<close> after the round
  with loop variable \<open>i\<close>; the table \<^verbatim>\<open>U8 t[65536]\<close> is a function of the
  index, and its entries 0 and 1 keep the zero of static storage.
\<close>

fun Ilog_x :: "nat \<Rightarrow> U32" where
  "Ilog_x i =
     (if i < 2 then 14155776
      else Ilog_x (i - 1) + word_of_int (774541002 sdiv (int i * 2 - 1)))"

declare Ilog_x.simps [simp del]

definition Ilog_t :: "nat \<Rightarrow> U8" where
  "Ilog_t i = (if 2 \<le> i \<and> i < 65536 then ucast (drop_bit 24 (Ilog_x i)) else 0)"

text \<open>\<^verbatim>\<open>int operator()(U16 x) const {return t[x];}\<close>\<close>

definition ilog :: "U16 \<Rightarrow> int" where
  "ilog x = uint (Ilog_t (unat x))"

subsection \<open>The run prediction of ContextMap\<close>

text \<open>
  The block ``predict from last byte in context'' of \<^verbatim>\<open>ContextMap::mix1\<close>,
  for one context: \<open>r0\<close> and \<open>r1\<close> are the bytes \<^verbatim>\<open>runp[i][0]\<close> (the count,
  with the flag in its low bit) and \<^verbatim>\<open>runp[i][1]\<close> (the last byte),
  \<open>cc\<close> is the argument \<^verbatim>\<open>cc\<close> (the global \<^verbatim>\<open>c0\<close>).  \<open>mix1_run_input\<close> is
  the argument of \<^verbatim>\<open>m.add\<close>, \<open>mix1_run_predict\<close> the block.
\<close>

definition mix1_run_input :: "gctx \<Rightarrow> int \<Rightarrow> U8 \<Rightarrow> U8 \<Rightarrow> int" where
  "mix1_run_input g cc r0 r1 =
     (let rc = uint r0
      in (if drop_bit (nat (8 - bpos g)) (uint r1 + 256) = cc
          then (let b = (drop_bit (nat (7 - bpos g)) (uint r1) AND 1) * 2 - 1;
                    c = ilog (word_of_int (rc + 1));
                    c1 = (if rc AND 1 \<noteq> 0 then (c * 15) sdiv 4 else c * 13)
                in b * c1)
          else 0))"

definition mix1_run_predict ::
  "gctx \<Rightarrow> int \<Rightarrow> U8 \<Rightarrow> U8 \<Rightarrow> 'a MixerCore_scheme \<Rightarrow> 'a MixerCore_scheme option" where
  "mix1_run_predict g cc r0 r1 m = Mixer_add (mix1_run_input g cc r0 r1) m"

subsection \<open>ByteMixer\<close>

text \<open>
  The members of \<^verbatim>\<open>ByteMixer\<close> that \<^verbatim>\<open>SetInput\<close> and the loop of the
  constructor use: the vocabulary \<^verbatim>\<open>vocab_\<close> (a \<^verbatim>\<open>std::vector<bool>\<close>), the map
  \<^verbatim>\<open>byte_map_\<close> from bytes to slots, the accumulators \<^verbatim>\<open>inputs_\<close>, and the
  cursor \<^verbatim>\<open>offset_\<close>.  The accumulators are \<^verbatim>\<open>float\<close>s; the model leaves their
  type open and uses only its \<open>+\<close> and \<open>0\<close>.  An index outside a vector is
  undefined behaviour of the source and \<open>None\<close> here.
\<close>

record 'a ByteMixer =
  ByteMixer_vocab :: "bool list"
  ByteMixer_byte_map :: "nat list"
  ByteMixer_inputs :: "'a list"
  ByteMixer_vocab_size :: nat
  ByteMixer_offset :: nat

text \<open>
  The constructor: \<^verbatim>\<open>byte_map_(0, 256), inputs_(0.0, vocab_size), offset_(0)\<close>,
  then \<^verbatim>\<open>for (int i = 0; i < 256; ++i) { byte_map_[i] = offset_;
  if (vocab_[i]) ++offset_; }  offset_ = 0;\<close>.  \<open>ByteMixer_fill\<close> is one round
  of the loop on the pair of \<^verbatim>\<open>byte_map_\<close> and \<^verbatim>\<open>offset_\<close>.
\<close>

definition ByteMixer_fill :: "bool list \<Rightarrow> nat \<Rightarrow> nat list \<times> nat \<Rightarrow> nat list \<times> nat" where
  "ByteMixer_fill vocab i s = ((fst s)[i := snd s], (if vocab ! i then snd s + 1 else snd s))"

definition ByteMixer_new :: "bool list \<Rightarrow> nat \<Rightarrow> ('a :: zero) ByteMixer option" where
  "ByteMixer_new vocab vocab_size =
     (if length vocab < 256 then None
      else Some \<lparr>ByteMixer_vocab = vocab,
                 ByteMixer_byte_map = fst (fold (ByteMixer_fill vocab) [0..<256] (replicate 256 0, 0)),
                 ByteMixer_inputs = replicate vocab_size 0,
                 ByteMixer_vocab_size = vocab_size,
                 ByteMixer_offset = 0\<rparr>)"

text \<open>
  \<^verbatim>\<open>void ByteMixer::SetInput(int index, float val) { if (!vocab_[index]) return;
  inputs_[offset_] += val; ++offset_; if (offset_ == vocab_size_) offset_ = 0; }\<close>
\<close>

definition SetInput :: "int \<Rightarrow> ('a :: plus) \<Rightarrow> 'a ByteMixer \<Rightarrow> 'a ByteMixer option" where
  "SetInput index val bm =
     (if index < 0 \<or> int (length (ByteMixer_vocab bm)) \<le> index then None
      else if \<not> ByteMixer_vocab bm ! nat index then Some bm
      else if length (ByteMixer_inputs bm) \<le> ByteMixer_offset bm then None
      else (let bm1 = bm\<lparr>ByteMixer_inputs := (ByteMixer_inputs bm)[ByteMixer_offset bm := ByteMixer_inputs bm ! ByteMixer_offset bm + val]\<rparr>;
                bm2 = bm1\<lparr>ByteMixer_offset := ByteMixer_offset bm1 + 1\<rparr>
            in Some (if ByteMixer_offset bm2 = ByteMixer_vocab_size bm2 then bm2\<lparr>ByteMixer_offset := 0\<rparr> else bm2)))"

text \<open>A sequence of calls of \<^verbatim>\<open>SetInput\<close>, stopping at the first undefined one.\<close>

fun SetInput_calls :: "(int \<times> ('a :: plus)) list \<Rightarrow> 'a ByteMixer \<Rightarrow> 'a ByteMixer option" where
  "SetInput_calls [] bm = Some bm"
| "SetInput_calls (c # cs) bm =
     (case SetInput (fst c) (snd c) bm of None \<Rightarrow> None | Some bm1 \<Rightarrow> SetInput_calls cs bm1)"

text \<open>
  The number of vocabulary bytes below \<open>i\<close>: the slot that the vocabulary
  order assigns to byte \<open>i\<close>.
\<close>

definition vocab_rank :: "bool list \<Rightarrow> nat \<Rightarrow> nat" where
  "vocab_rank vocab i = length (filter (\<lambda>b. b) (take i vocab))"

text \<open>A vocabulary of the two bytes 65 and 66, and its mixer.\<close>

definition vocab_AB :: "bool list" where
  "vocab_AB = replicate 65 False @ [True, True] @ replicate 189 False"

definition mixer_AB :: "int ByteMixer" where
  "mixer_AB = \<lparr>ByteMixer_vocab = vocab_AB,
                ByteMixer_byte_map = replicate 66 0 @ [1] @ replicate 189 2,
                ByteMixer_inputs = [0, 0], ByteMixer_vocab_size = 2, ByteMixer_offset = 0\<rparr>"

subsection \<open>APM\<close>

text \<open>
  \<^verbatim>\<open>class APM { int index; Array<U16> t; \<dots> }\<close>.  The table is a function of
  the index together with its size \<^verbatim>\<open>t.size()\<close>; an access outside the table
  is undefined behaviour of the source (\<^verbatim>\<open>NDEBUG\<close> is defined, so that neither
  the bound checks nor the \<^verbatim>\<open>assert\<close>s are compiled) and \<open>None\<close> here.
\<close>

record APM =
  APM_index :: int
  APM_t :: "nat \<Rightarrow> U16"
  APM_size :: int

text \<open>
  The constructor \<^verbatim>\<open>APM::APM(int n): index(0), t(n*33)\<close> with its two loops
  \<^verbatim>\<open>for (int j=0; j<33; ++j) t[j]=squash((j-16)*128)*16;\<close> and
  \<^verbatim>\<open>for (int i=33; i<n*33; ++i) t[i]=t[i-33];\<close>.  \<open>APM_fill i\<close> is the entry
  \<open>i\<close> that the loops write.
\<close>

fun APM_fill :: "nat \<Rightarrow> U16" where
  "APM_fill i =
     (if i < 33 then word_of_int (squash ((int i - 16) * 128) * 16)
      else APM_fill (i - 33))"

declare APM_fill.simps [simp del]

definition APM_new :: "int \<Rightarrow> APM" where
  "APM_new n =
     \<lparr>APM_index = 0,
      APM_t = (\<lambda>i. if int i < n * 33 then APM_fill i else 0),
      APM_size = n * 33\<rparr>"

text \<open>A read \<^verbatim>\<open>t[i]\<close>, and the update \<^verbatim>\<open>t[i] += (g-t[i]) >> rate\<close>.\<close>

definition APM_at :: "APM \<Rightarrow> int \<Rightarrow> U16 option" where
  "APM_at a i = (if 0 \<le> i \<and> i < APM_size a then Some (APM_t a (nat i)) else None)"

definition APM_train :: "int \<Rightarrow> int \<Rightarrow> int \<Rightarrow> APM \<Rightarrow> APM option" where
  "APM_train g rate i a =
     (if 0 \<le> i \<and> i < APM_size a
      then Some (a\<lparr>APM_t := (APM_t a)
                   (nat i := word_of_int (uint (APM_t a (nat i))
                               + drop_bit (nat rate) (g - uint (APM_t a (nat i)))))\<rparr>)
      else None)"

text \<open>
  \<^verbatim>\<open>int p(int pr=2048, int cxt=0, int rate=8)\<close>: the two entries used by the
  previous call are moved towards the bit \<^verbatim>\<open>y\<close>, then the new pair of entries
  is selected and interpolated.
\<close>

definition APM_p :: "gctx \<Rightarrow> int \<Rightarrow> int \<Rightarrow> int \<Rightarrow> APM \<Rightarrow> (int \<times> APM) option" where
  "APM_p gc pr cxt rate a =
     (case stretch pr of None \<Rightarrow> None
      | Some s \<Rightarrow>
     (let g = push_bit 16 (y gc) + push_bit (nat rate) (y gc) - y gc * 2
      in case APM_train g rate (APM_index a) a of None \<Rightarrow> None
      | Some a1 \<Rightarrow>
     (case APM_train g rate (APM_index a + 1) a1 of None \<Rightarrow> None
      | Some a2 \<Rightarrow>
     (let w = s AND 127;
          a3 = a2\<lparr>APM_index := drop_bit 7 (s + 2048) + cxt * 33\<rparr>
      in case APM_at a3 (APM_index a3) of None \<Rightarrow> None
      | Some t0 \<Rightarrow>
     (case APM_at a3 (APM_index a3 + 1) of None \<Rightarrow> None
      | Some t1 \<Rightarrow> Some (drop_bit 11 (uint t0 * (128 - w) + uint t1 * w), a3))))))"

subsection \<open>hash\<close>

text \<open>
  \<^verbatim>\<open>inline U32 hash(U32 a, U32 b, U32 c=0xffffffff) {
  U32 h=a*110002499u+b*30005491u+c*50004239u; return h^h>>9^a>>3^b>>3^c>>4; }\<close>
\<close>

definition hash :: "U32 \<Rightarrow> U32 \<Rightarrow> U32 \<Rightarrow> U32" where
  "hash a b c =
     (let h = a * 110002499 + b * 30005491 + c * 50004239
      in h XOR drop_bit 9 h XOR drop_bit 3 a XOR drop_bit 3 b XOR drop_bit 4 c)"

subsection \<open>Predictor\<close>

text \<open>
  The state of the program: the globals, the member \<^verbatim>\<open>pr\<close> of the
  \<^verbatim>\<open>Predictor paq8\<close>, the six \<^verbatim>\<open>static APM\<close>s of \<^verbatim>\<open>Predictor::update\<close>, and
  the static state of \<^verbatim>\<open>contextModel2\<close> and of the models below it (context
  maps, state maps, mixer), of a type \<open>'m\<close> left open.
\<close>

record 'm paq8 =
  paq8_g :: gctx
  Predictor_pr :: int
  Predictor_a1 :: APM
  Predictor_a2 :: APM
  Predictor_a3 :: APM
  Predictor_a4 :: APM
  Predictor_a5 :: APM
  Predictor_a6 :: APM
  paq8_models :: 'm

text \<open>
  \<^verbatim>\<open>Predictor::Predictor(): pr(2048) {}\<close> and the constructors of the six
  APMs, after \<^verbatim>\<open>PAQ8Init(memory)\<close>.
\<close>

definition paq8_new :: "int \<Rightarrow> 'm \<Rightarrow> 'm paq8" where
  "paq8_new memory m =
     \<lparr>paq8_g = PAQ8Init memory gctx_init,
      Predictor_pr = 2048,
      Predictor_a1 = APM_new 256,
      Predictor_a2 = APM_new 0x8000,
      Predictor_a3 = APM_new 0x8000,
      Predictor_a4 = APM_new 0x20000,
      Predictor_a5 = APM_new 0x10000,
      Predictor_a6 = APM_new 0x10000,
      paq8_models = m\<rparr>"

text \<open>\<^verbatim>\<open>int p() const {assert(pr>=0 && pr<4096); return pr;}\<close> and \<^verbatim>\<open>PAQ8Predict\<close>,
  which returns the prediction and the state it leaves.\<close>

definition Predictor_p :: "'m paq8 \<Rightarrow> int" where
  "Predictor_p s = Predictor_pr s"

definition PAQ8Predict :: "'m paq8 \<Rightarrow> int \<times> 'm paq8" where
  "PAQ8Predict s = (Predictor_p s, s)"

text \<open>
  The lines of \<^verbatim>\<open>Predictor::update\<close> between the update of the global context
  and the call of \<^verbatim>\<open>contextModel2\<close>: the history of failed predictions.  The
  value of \<^verbatim>\<open>pr\<close> changed by \<^verbatim>\<open>if (y) pr^=4095;\<close> is overwritten by the call
  of \<^verbatim>\<open>contextModel2\<close> and is local here.
\<close>

definition update_fails :: "int \<Rightarrow> gctx \<Rightarrow> gctx" where
  "update_fails pr g =
     (let g1 = (if fails g AND 0x80 \<noteq> 0 then g\<lparr>failcount := failcount g - 1\<rparr> else g);
          g2 = g1\<lparr>fails := fails g1 * 2\<rparr>;
          g3 = g2\<lparr>failz := failz g2 * 2\<rparr>;
          pr1 = (if y g3 \<noteq> 0 then pr XOR 4095 else pr);
          g4 = (if pr1 \<ge> 1820
                then g3\<lparr>fails := fails g3 + 1, failcount := failcount g3 + 1\<rparr> else g3)
      in (if pr1 \<ge> 848 then g4\<lparr>failz := failz g4 + 1\<rparr> else g4))"

text \<open>\<^verbatim>\<open>int rate=6 + (pos>14*256*1024) + (pos>28*512*1024);\<close>\<close>

definition APM_rate :: "gctx \<Rightarrow> int" where
  "APM_rate g =
     6 + (if pos g > 14 * 256 * 1024 then 1 else 0) + (if pos g > 28 * 512 * 1024 then 1 else 0)"

text \<open>
  The value of \<^verbatim>\<open>pz\<close> before the call of \<^verbatim>\<open>a6.p\<close>: \<^verbatim>\<open>pz=failcount+1;
  pz+=tri[(fails>>5)&3]; pz+=trj[(fails>>3)&3]; pz+=trj[(fails>>1)&3];
  if (fails&1) pz+=8; pz=pz/2;\<close>.  The sums with the \<^verbatim>\<open>U32\<close> entries are
  unsigned and converted back to \<^verbatim>\<open>int\<close>.
\<close>

definition fail_pz :: "gctx \<Rightarrow> int" where
  "fail_pz g =
     (let pz = sint (failcount g + 1
                  + tri ! unat (drop_bit 5 (fails g) AND 3)
                  + trj ! unat (drop_bit 3 (fails g) AND 3)
                  + trj ! unat (drop_bit 1 (fails g) AND 3));
          pz1 = (if fails g AND 1 \<noteq> 0 then pz + 8 else pz)
      in pz1 sdiv 2)"

text \<open>The six contexts of the APM chain.\<close>

definition cxt_a4 :: "gctx \<Rightarrow> int" where
  "cxt_a4 g = sint (word_of_int (c0 g * 2)
     XOR (hash (b1 g) (drop_bit 8 (x5 g) AND 255) (drop_bit 16 (x5 g) AND 0x80ff) AND 0x1ffff))"

definition cxt_a2 :: "gctx \<Rightarrow> int" where
  "cxt_a2 g = sint (word_of_int (c0 g * 8)
     XOR (hash 29 (failz g AND 2047) 0xffffffff AND 0x7fff))"

definition cxt_a5 :: "gctx \<Rightarrow> int" where
  "cxt_a5 g = sint (hash (word_of_int (c0 g)) (w5 g AND 0xfffff) 0xffffffff AND 0xffff)"

definition cxt_a3 :: "gctx \<Rightarrow> int" where
  "cxt_a3 g = sint (word_of_int (c0 g * 32)
     XOR (hash 19 (x5 g AND 0x80ffff) 0xffffffff AND 0x7fff))"

definition cxt_a6 :: "gctx \<Rightarrow> int" where
  "cxt_a6 g = sint (word_of_int (c0 g * 4)
     XOR (hash (word_of_int (min 9 (fail_pz g))) (x5 g AND 0x80ff) 0xffffffff AND 0xffff))"

text \<open>
  The final average: \<^verbatim>\<open>if (fails&255) pr =(pt*6+pu+pv*11+pz*14 +16)>>5;
  else pr =(pt*4+pu*5+pv*12+pz*11 +16)>>5;\<close>
\<close>

definition final_pr :: "gctx \<Rightarrow> int \<Rightarrow> int \<Rightarrow> int \<Rightarrow> int \<Rightarrow> int" where
  "final_pr g pt pu pv pz =
     (if fails g AND 255 \<noteq> 0 then drop_bit 5 (pt * 6 + pu + pv * 11 + pz * 14 + 16)
      else drop_bit 5 (pt * 4 + pu * 5 + pv * 12 + pz * 11 + 16))"

text \<open>
  \<^verbatim>\<open>void Predictor::update()\<close>.  The argument \<open>cm2\<close> stands for
  \<^verbatim>\<open>contextModel2()\<close>: from the globals and the state of the models it gives
  the prediction of the mixer and the globals and the models as it leaves
  them, or \<open>None\<close> where it is undefined.  It cannot reach \<^verbatim>\<open>pr\<close> (a private
  member) nor the APMs (local statics of \<^verbatim>\<open>update\<close>).
\<close>

definition Predictor_update ::
  "(gctx \<Rightarrow> 'm \<Rightarrow> (int \<times> gctx \<times> 'm) option) \<Rightarrow> 'm paq8 \<Rightarrow> 'm paq8 option" where
  "Predictor_update cm2 s =
     (let g1 = update_context (paq8_g s);
          g2 = update_fails (Predictor_pr s) g1
      in case cm2 g2 (paq8_models s) of None \<Rightarrow> None
      | Some (pr, g, m) \<Rightarrow>
     (let rate = APM_rate g
      in case APM_p g pr (c0 g) 3 (Predictor_a1 s) of None \<Rightarrow> None
      | Some (q1, a1) \<Rightarrow>
     (let pu = drop_bit 3 (q1 + 7 * pr + 4)
      in case APM_p g pu (cxt_a4 g) rate (Predictor_a4 s) of None \<Rightarrow> None
      | Some (pu1, a4) \<Rightarrow>
     (case APM_p g pr (cxt_a2 g) (rate + 1) (Predictor_a2 s) of None \<Rightarrow> None
      | Some (pv, a2) \<Rightarrow>
     (case APM_p g pv (cxt_a5 g) rate (Predictor_a5 s) of None \<Rightarrow> None
      | Some (pv1, a5) \<Rightarrow>
     (case APM_p g pr (cxt_a3 g) rate (Predictor_a3 s) of None \<Rightarrow> None
      | Some (pt, a3) \<Rightarrow>
     (case APM_p g pu1 (cxt_a6 g) rate (Predictor_a6 s) of None \<Rightarrow> None
      | Some (pz, a6) \<Rightarrow>
          Some \<lparr>paq8_g = g,
                Predictor_pr = final_pr g pt pu1 pv1 pz,
                Predictor_a1 = a1, Predictor_a2 = a2, Predictor_a3 = a3,
                Predictor_a4 = a4, Predictor_a5 = a5, Predictor_a6 = a6,
                paq8_models = m\<rparr>)))))))"

text \<open>\<^verbatim>\<open>void PAQ8Perceive(int bit)\<close>\<close>

definition PAQ8Perceive ::
  "(gctx \<Rightarrow> 'm \<Rightarrow> (int \<times> gctx \<times> 'm) option) \<Rightarrow> int \<Rightarrow> 'm paq8 \<Rightarrow> 'm paq8 option" where
  "PAQ8Perceive cm2 bitv s = Predictor_update cm2 (s\<lparr>paq8_g := set_bit_y bitv (paq8_g s)\<rparr>)"

text \<open>
  The states the program reaches from its initial state by calls of
  \<^verbatim>\<open>PAQ8Predict\<close> and of \<^verbatim>\<open>PAQ8Perceive\<close> with a bit, whatever the context model
  does.
\<close>

inductive Predictor_reach ::
  "(gctx \<Rightarrow> 'm \<Rightarrow> (int \<times> gctx \<times> 'm) option) \<Rightarrow> 'm paq8 \<Rightarrow> bool"
  for cm2 :: "gctx \<Rightarrow> 'm \<Rightarrow> (int \<times> gctx \<times> 'm) option" where
  paq8_reach_new: "Predictor_reach cm2 (paq8_new memory m)"
| paq8_reach_predict: "Predictor_reach cm2 s \<Longrightarrow> Predictor_reach cm2 (snd (PAQ8Predict s))"
| paq8_reach_perceive:
    "Predictor_reach cm2 s \<Longrightarrow> bitv = 0 \<or> bitv = 1 \<Longrightarrow> PAQ8Perceive cm2 bitv s = Some s1
       \<Longrightarrow> Predictor_reach cm2 s1"

text \<open>
  The invariant of the APMs: the pair of entries selected by the last call
  lies in the table.
\<close>

definition APM_ok :: "int \<Rightarrow> APM \<Rightarrow> bool" where
  "APM_ok n a = (APM_size a = n * 33 \<and> 0 \<le> APM_index a \<and> APM_index a + 1 < APM_size a)"

definition paq8_ok :: "'m paq8 \<Rightarrow> bool" where
  "paq8_ok s =
     (0 \<le> Predictor_pr s \<and> Predictor_pr s \<le> 4095
      \<and> APM_ok 256 (Predictor_a1 s) \<and> APM_ok 0x8000 (Predictor_a2 s)
      \<and> APM_ok 0x8000 (Predictor_a3 s) \<and> APM_ok 0x20000 (Predictor_a4 s)
      \<and> APM_ok 0x10000 (Predictor_a5 s) \<and> APM_ok 0x10000 (Predictor_a6 s))"

text \<open>
  A stand-in for the context model in examples: it predicts 2048 and
  leaves the globals and its own state (of type \<open>unit\<close>) alone.
\<close>

definition cm2_even :: "gctx \<Rightarrow> unit \<Rightarrow> (int \<times> gctx \<times> unit) option" where
  "cm2_even g m = Some (2048, g, m)"

section \<open>Theorems\<close>

subsection \<open>The global context update\<close>

lemmas context_defs = PAQ8Init_def gctx_init_def perceive_context_def set_bit_y_def
  update_context_def update_byte_def store_byte_def update_smoothing_def update_w4_w5_def
  shift_bytes_def update_sentence_def update_packed_def sentence_byte_def Let_def
  WRT_mpw_def WRT_mtt_def MEM_def Buf_setsize_def Buf_store_def

text \<open>What each group of statements does to the fields the theorems below read.\<close>

lemma store_byte_fields:
  "c0 (store_byte g) = c0 g - 256" "pos (store_byte g) = pos g + 1"
  "y (store_byte g) = y g" "b1 (store_byte g) = b1 g"
  "w4 (store_byte g) = w4 g" "w5 (store_byte g) = w5 g"
  "sm_shft (store_byte g) = sm_shft g" "sm_add (store_byte g) = sm_add g"
  "sm_add_y (store_byte g) = sm_add_y g"
  by (simp_all add: store_byte_def Let_def)

lemma update_smoothing_fields:
  "c0 (update_smoothing g) = c0 g" "pos (update_smoothing g) = pos g"
  "y (update_smoothing g) = y g" "b1 (update_smoothing g) = b1 g"
  "w4 (update_smoothing g) = w4 g" "w5 (update_smoothing g) = w5 g"
  by (simp_all add: update_smoothing_def Let_def)

lemma update_smoothing_pair:
  "(sm_shft (update_smoothing g), sm_add (update_smoothing g)) =
     (if pos g = 512 * 1024 then (8, 65790)
      else if pos g = 1024 * 1024 then (9, 66046) else (sm_shft g, sm_add g))"
  by (simp add: update_smoothing_def Let_def)

lemma update_smoothing_add_y:
  "sm_add_y (update_smoothing g) =
     (if pos g \<le> 1024 * 1024 then sm_add (update_smoothing g) AND (- y g) else sm_add_y g)"
  by (simp add: update_smoothing_def Let_def)

lemma update_w4_w5_fields:
  "c0 (update_w4_w5 g) = c0 g" "pos (update_w4_w5 g) = pos g"
  "y (update_w4_w5 g) = y g" "b1 (update_w4_w5 g) = b1 g"
  "sm_shft (update_w4_w5 g) = sm_shft g" "sm_add (update_w4_w5 g) = sm_add g"
  "sm_add_y (update_w4_w5 g) = sm_add_y g"
  by (simp_all add: update_w4_w5_def Let_def)

lemma update_w4_w5_regs:
  "w4 (update_w4_w5 g) = w4 g * 4 + WRT_mpw ! nat (drop_bit 4 (c0 g))"
  "w5 (update_w4_w5 g) =
     w5 g * 4 + (if b1 g = 12 then 2 else WRT_mpw ! nat (drop_bit 4 (c0 g)))"
  by (simp_all add: update_w4_w5_def Let_def)

lemma shift_bytes_fields:
  "c0 (shift_bytes g) = c0 g" "pos (shift_bytes g) = pos g" "y (shift_bytes g) = y g"
  "w4 (shift_bytes g) = w4 g" "w5 (shift_bytes g) = w5 g"
  "b1 (shift_bytes g) = word_of_int (c0 g)"
  "sm_shft (shift_bytes g) = sm_shft g" "sm_add (shift_bytes g) = sm_add g"
  "sm_add_y (shift_bytes g) = sm_add_y g"
  by (simp_all add: shift_bytes_def)

lemma update_sentence_fields:
  "c0 (update_sentence g) = c0 g" "pos (update_sentence g) = pos g"
  "y (update_sentence g) = y g" "b1 (update_sentence g) = b1 g"
  "sm_shft (update_sentence g) = sm_shft g" "sm_add (update_sentence g) = sm_add g"
  "sm_add_y (update_sentence g) = sm_add_y g"
  by (simp_all add: update_sentence_def Let_def)

lemma update_sentence_regs:
  "w4 (update_sentence g) =
     (if sentence_byte (c0 g) \<and> c0 g \<noteq> 33 \<and> c0 g \<noteq> 79 then w4 g OR 12 else w4 g)"
  "w5 (update_sentence g) =
     (if sentence_byte (c0 g) then push_bit 8 (w5 g) OR 0x3ff else w5 g)"
  by (simp_all add: update_sentence_def Let_def)

lemma update_packed_fields:
  "c0 (update_packed g) = 1" "pos (update_packed g) = pos g" "y (update_packed g) = y g"
  "w4 (update_packed g) = w4 g" "w5 (update_packed g) = w5 g" "b1 (update_packed g) = b1 g"
  "sm_shft (update_packed g) = sm_shft g" "sm_add (update_packed g) = sm_add g"
  "sm_add_y (update_packed g) = sm_add_y g"
  by (simp_all add: update_packed_def Let_def)

lemmas update_byte_fields = store_byte_fields update_smoothing_fields update_w4_w5_fields
  shift_bytes_fields update_sentence_fields update_packed_fields

lemma update_byte_w4:
  "w4 (update_byte g) =
     (if sentence_byte (c0 g - 256) \<and> c0 g - 256 \<noteq> 33 \<and> c0 g - 256 \<noteq> 79
      then (w4 g * 4 + WRT_mpw ! nat (drop_bit 4 (c0 g - 256))) OR 12
      else w4 g * 4 + WRT_mpw ! nat (drop_bit 4 (c0 g - 256)))"
  by (simp add: update_byte_def update_byte_fields update_sentence_regs update_w4_w5_regs)

lemma update_byte_w5:
  "w5 (update_byte g) =
     (if sentence_byte (c0 g - 256)
      then push_bit 8 (w5 g * 4 +
             (if b1 g = 12 then 2 else WRT_mpw ! nat (drop_bit 4 (c0 g - 256)))) OR 0x3ff
      else w5 g * 4 + (if b1 g = 12 then 2 else WRT_mpw ! nat (drop_bit 4 (c0 g - 256))))"
  by (simp add: update_byte_def update_byte_fields update_sentence_regs update_w4_w5_regs)

lemma update_byte_pair:
  "(sm_shft (update_byte g), sm_add (update_byte g)) =
     (if pos g + 1 = 512 * 1024 then (8, 65790)
      else if pos g + 1 = 1024 * 1024 then (9, 66046) else (sm_shft g, sm_add g))"
  using update_smoothing_pair [of "store_byte g"]
  by (simp add: update_byte_def update_byte_fields)

lemma update_byte_add_y:
  "sm_add_y (update_byte g) =
     (if pos g + 1 \<le> 1024 * 1024 then sm_add (update_byte g) AND (- y g) else sm_add_y g)"
  using update_smoothing_add_y [of "store_byte g"]
  by (simp add: update_byte_def update_byte_fields)

lemma update_byte_pos: "pos (update_byte g) = pos g + 1"
  by (simp add: update_byte_def update_byte_fields)

lemma update_byte_y: "y (update_byte g) = y g"
  by (simp add: update_byte_def update_byte_fields)

lemma update_byte_c0: "c0 (update_byte g) = 1"
  by (simp add: update_byte_def update_byte_fields)

lemma shifted_fields:
  "c0 (shifted bitv g) = 2 * c0 g + bitv" "pos (shifted bitv g) = pos g"
  "y (shifted bitv g) = bitv" "b1 (shifted bitv g) = b1 g"
  "w4 (shifted bitv g) = w4 g" "w5 (shifted bitv g) = w5 g"
  "sm_shft (shifted bitv g) = sm_shft g" "sm_add (shifted bitv g) = sm_add g"
  "sm_add_y (shifted bitv g) = (if bitv \<noteq> 0 then sm_add g else 0)"
  by (simp_all add: shifted_def set_bit_y_def Let_def)

lemma perceive_context_boundary:
  assumes "256 \<le> 2 * c0 g + bitv"
  shows "perceive_context bitv g =
           (update_byte (shifted bitv g))\<lparr>bpos := (bpos (update_byte (shifted bitv g)) + 1) AND 7\<rparr>"
  using assms shifted_fields(1) [of bitv g]
  by (simp add: perceive_context_def update_context_def Let_def shifted_def)

lemma perceive_context_inside:
  assumes "2 * c0 g + bitv < 256"
  shows "perceive_context bitv g =
           (shifted bitv g)\<lparr>bpos := (bpos (shifted bitv g) + 1) AND 7\<rparr>"
  using assms shifted_fields(1) [of bitv g]
  by (simp add: perceive_context_def update_context_def Let_def shifted_def)

lemma perceive_context_c0_bounds:
  assumes "bitv = 0 \<or> bitv = 1" and "1 \<le> c0 g" and "c0 g \<le> 255"
  shows "1 \<le> c0 (perceive_context bitv g) \<and> c0 (perceive_context bitv g) \<le> 255"
proof (cases "256 \<le> 2 * c0 g + bitv")
  case True
  then show ?thesis by (simp add: perceive_context_boundary update_byte_c0)
next
  case False
  then show ?thesis using assms by (auto simp: perceive_context_inside shifted_fields)
qed

lemma perceive_context_pos:
  "pos (perceive_context bitv g) = (if 256 \<le> 2 * c0 g + bitv then pos g + 1 else pos g)"
  by (simp add: perceive_context_boundary perceive_context_inside update_byte_pos shifted_fields)

lemma perceive_context_y: "y (perceive_context bitv g) = bitv"
  by (cases "256 \<le> 2 * c0 g + bitv")
     (simp_all add: perceive_context_boundary perceive_context_inside update_byte_y shifted_fields)

lemma before_FF_NUL_last_bit_regs:
  "c0 before_FF_NUL_last_bit = 128" "b1 before_FF_NUL_last_bit = 12"
  "w4 before_FF_NUL_last_bit = 3" "w5 before_FF_NUL_last_bit = 3"
  unfolding before_FF_NUL_last_bit_def by (simp_all add: context_defs)

lemma after_FF_NUL_step: "after_FF_NUL = perceive_context 0 before_FF_NUL_last_bit"
  unfolding after_FF_NUL_def before_FF_NUL_last_bit_def by simp

lemma after_FF_NUL_regs: "w4 after_FF_NUL = 15" "w5 after_FF_NUL = 14"
  unfolding after_FF_NUL_def by (simp_all add: context_defs)

text \<open>
  Claim C1, as the code has it.  When a bit completes a byte (the byte is
  \<open>2 * c0 + bit - 256\<close>), \<^verbatim>\<open>w4\<close> becomes \<open>w4 * 4 + WRT_mpw[byte >> 4]\<close>
  whatever \<^verbatim>\<open>b1\<close> is, and \<^verbatim>\<open>w5\<close> becomes \<open>w5 * 4 + code\<close>, where the
  code is \<open>WRT_mpw[byte >> 4]\<close> except that it is 2 when the byte before,
  \<^verbatim>\<open>b1\<close>, is 12.  For the six sentence bytes the same update then sets
  \<open>w5 = (w5 << 8) | 0x3ff\<close> and, unless the byte is \<open>!\<close> or \<open>O\<close>, \<open>w4 |= 12\<close>.
\<close>

theorem byte_boundary_w4_w5:
  assumes "bitv = 0 \<or> bitv = 1" and "128 \<le> c0 g"
  shows "w4 (perceive_context bitv g) =
           (if sentence_byte (2 * c0 g + bitv - 256) \<and> 2 * c0 g + bitv - 256 \<noteq> 33
               \<and> 2 * c0 g + bitv - 256 \<noteq> 79
            then (w4 g * 4 + WRT_mpw ! nat (drop_bit 4 (2 * c0 g + bitv - 256))) OR 12
            else w4 g * 4 + WRT_mpw ! nat (drop_bit 4 (2 * c0 g + bitv - 256)))
       \<and> w5 (perceive_context bitv g) =
           (if sentence_byte (2 * c0 g + bitv - 256)
            then push_bit 8 (w5 g * 4 + (if b1 g = 12 then 2
                   else WRT_mpw ! nat (drop_bit 4 (2 * c0 g + bitv - 256)))) OR 0x3ff
            else w5 g * 4 + (if b1 g = 12 then 2
                   else WRT_mpw ! nat (drop_bit 4 (2 * c0 g + bitv - 256))))"
proof -
  have ge: "256 \<le> 2 * c0 g + bitv" using assms by auto
  show ?thesis
    unfolding perceive_context_boundary [OF ge]
    by (simp add: update_byte_w4 update_byte_w5 shifted_fields)
qed

text \<open>
  The theorem at the last bit of the byte 0 that follows the byte 12 (form
  feed) from the initial state: \<^verbatim>\<open>w4\<close> takes the table's code 3,
  \<^verbatim>\<open>w5\<close> the code 2.
\<close>

theorem byte_boundary_w4_w5_witness:
  "w4 (perceive_context 0 before_FF_NUL_last_bit) = 3 * 4 + 3
   \<and> w5 (perceive_context 0 before_FF_NUL_last_bit) = 3 * 4 + 2"
  using byte_boundary_w4_w5 [of 0 before_FF_NUL_last_bit]
  by (simp add: before_FF_NUL_last_bit_regs sentence_byte_def WRT_mpw_def)

text \<open>
  Claim C1 as it is written fails there: the byte before is 12, and \<^verbatim>\<open>w4\<close>
  is not \<open>w4 * 4 + 2\<close>.
\<close>

theorem byte_boundary_w4_counterexample:
  "b1 before_FF_NUL_last_bit = 12 \<and> c0 before_FF_NUL_last_bit = 128
   \<and> w4 (perceive_context 0 before_FF_NUL_last_bit) \<noteq> w4 before_FF_NUL_last_bit * 4 + 2"
  using after_FF_NUL_regs(1)
  by (simp add: after_FF_NUL_step before_FF_NUL_last_bit_regs)

text \<open>The schedule holds initially and after every bit.\<close>

lemma smoothing_on_schedule_init: "smoothing_on_schedule (PAQ8Init l gctx_init)"
  by (simp add: smoothing_on_schedule_def context_defs)

lemma perceive_context_pair:
  "(sm_shft (perceive_context bitv g), sm_add (perceive_context bitv g)) =
     (if 256 \<le> 2 * c0 g + bitv \<and> pos g + 1 = 512 * 1024 then (8, 65790)
      else if 256 \<le> 2 * c0 g + bitv \<and> pos g + 1 = 1024 * 1024 then (9, 66046)
      else (sm_shft g, sm_add g))"
proof (cases "256 \<le> 2 * c0 g + bitv")
  case True
  show ?thesis
    using update_byte_pair [of "shifted bitv g"] True
    by (simp add: perceive_context_boundary shifted_fields)
next
  case False
  then show ?thesis by (simp add: perceive_context_inside shifted_fields)
qed

lemma perceive_context_add_y:
  assumes "bitv = 0 \<or> bitv = 1"
  shows "sm_add_y (perceive_context bitv g) = sm_add (perceive_context bitv g) AND (- bitv)"
proof (cases "256 \<le> 2 * c0 g + bitv")
  case True
  have "sm_add (update_byte (shifted bitv g)) = sm_add g" if "\<not> pos g + 1 \<le> 1024 * 1024"
    using update_byte_pair [of "shifted bitv g"] that by (simp add: shifted_fields)
  then show ?thesis
    using update_byte_add_y [of "shifted bitv g"] True assms
    by (auto simp: perceive_context_boundary shifted_fields)
next
  case False
  then show ?thesis using assms by (auto simp: perceive_context_inside shifted_fields)
qed

lemma perceive_context_on_schedule:
  assumes "smoothing_on_schedule g"
  shows "smoothing_on_schedule (perceive_context bitv g)"
  using assms perceive_context_pair [of bitv g]
  by (auto simp: smoothing_on_schedule_def perceive_context_pos split: if_splits)

lemma perceive_bits_on_schedule:
  "smoothing_on_schedule g \<Longrightarrow> smoothing_on_schedule (perceive_bits bits g)"
  by (induction bits arbitrary: g) (simp_all add: perceive_context_on_schedule)

text \<open>
  Claim C8.  In a state whose pair \<^verbatim>\<open>(sm_shft, sm_add)\<close> is the one the
  schedule gives for its byte count (the initial state is, and every
  \<^verbatim>\<open>PAQ8Perceive\<close> keeps it so: the last conjunct), a \<^verbatim>\<open>PAQ8Perceive\<close>
  changes the pair if and only if its bit completes the byte with which
  \<^verbatim>\<open>pos\<close> reaches 512*1024 or 1024*1024; the new pairs are (8, 65790) and
  (9, 66046); and afterwards \<^verbatim>\<open>sm_add_y\<close> is \<^verbatim>\<open>sm_add & -y\<close>.
\<close>

theorem smoothing_changes_at_marks:
  assumes "bitv = 0 \<or> bitv = 1" and "smoothing_on_schedule g"
  shows "(((sm_shft (perceive_context bitv g), sm_add (perceive_context bitv g))
            \<noteq> (sm_shft g, sm_add g))
          = (pos (perceive_context bitv g) = pos g + 1
             \<and> (pos (perceive_context bitv g) = 512 * 1024
                \<or> pos (perceive_context bitv g) = 1024 * 1024)))
       \<and> ((pos (perceive_context bitv g) = pos g + 1) = (128 \<le> c0 g))
       \<and> (pos (perceive_context bitv g) = pos g + 1
            \<and> pos (perceive_context bitv g) = 512 * 1024
          \<longrightarrow> (sm_shft (perceive_context bitv g), sm_add (perceive_context bitv g))
                = (8, 65790))
       \<and> (pos (perceive_context bitv g) = pos g + 1
            \<and> pos (perceive_context bitv g) = 1024 * 1024
          \<longrightarrow> (sm_shft (perceive_context bitv g), sm_add (perceive_context bitv g))
                = (9, 66046))
       \<and> sm_add_y (perceive_context bitv g)
           = sm_add (perceive_context bitv g) AND (- y (perceive_context bitv g))
       \<and> smoothing_on_schedule (perceive_context bitv g)"
proof -
  have 1: "((sm_shft (perceive_context bitv g), sm_add (perceive_context bitv g))
            \<noteq> (sm_shft g, sm_add g))
         = (pos (perceive_context bitv g) = pos g + 1
            \<and> (pos (perceive_context bitv g) = 512 * 1024
               \<or> pos (perceive_context bitv g) = 1024 * 1024))"
    using assms(2) perceive_context_pair [of bitv g]
    by (auto simp: smoothing_on_schedule_def perceive_context_pos split: if_splits)
  have 2: "(pos (perceive_context bitv g) = pos g + 1) = (128 \<le> c0 g)"
    using assms(1) by (auto simp: perceive_context_pos)
  have 3: "pos (perceive_context bitv g) = pos g + 1
         \<and> pos (perceive_context bitv g) = 512 * 1024
         \<longrightarrow> (sm_shft (perceive_context bitv g), sm_add (perceive_context bitv g)) = (8, 65790)"
    using perceive_context_pair [of bitv g]
    by (auto simp: perceive_context_pos split: if_splits)
  have 4: "pos (perceive_context bitv g) = pos g + 1
         \<and> pos (perceive_context bitv g) = 1024 * 1024
         \<longrightarrow> (sm_shft (perceive_context bitv g), sm_add (perceive_context bitv g)) = (9, 66046)"
    using perceive_context_pair [of bitv g]
    by (auto simp: perceive_context_pos split: if_splits)
  have 5: "sm_add_y (perceive_context bitv g)
         = sm_add (perceive_context bitv g) AND (- y (perceive_context bitv g))"
    using perceive_context_add_y [OF assms(1)] by (simp add: perceive_context_y)
  have 6: "smoothing_on_schedule (perceive_context bitv g)"
    by (rule perceive_context_on_schedule [OF assms(2)])
  from 1 2 3 4 5 6 show ?thesis by blast
qed

lemma before_512K_fields:
  "pos before_512K = 524287" "c0 before_512K = 255"
  "sm_shft before_512K = 7" "sm_add before_512K = 65662"
  by (simp_all add: before_512K_def context_defs)

text \<open>
  The theorem at the bit that completes byte number 512*1024: the pair
  changes from (7, 65662) to (8, 65790), and \<^verbatim>\<open>sm_add_y\<close> is 65790 for the
  bit 1.
\<close>

theorem smoothing_changes_at_marks_witness:
  "smoothing_on_schedule before_512K
   \<and> (sm_shft before_512K, sm_add before_512K) = (7, 65662)
   \<and> pos (perceive_context 1 before_512K) = 512 * 1024
   \<and> (sm_shft (perceive_context 1 before_512K), sm_add (perceive_context 1 before_512K))
       = (8, 65790)
   \<and> sm_add_y (perceive_context 1 before_512K) = 65790"
proof -
  have s: "smoothing_on_schedule before_512K"
    by (simp add: smoothing_on_schedule_def before_512K_fields)
  have p: "pos (perceive_context 1 before_512K) = 512 * 1024"
    by (simp add: perceive_context_pos before_512K_fields)
  have "(1::int) = 0 \<or> (1::int) = 1" by simp
  from smoothing_changes_at_marks [OF this s] p
  have "(sm_shft (perceive_context 1 before_512K), sm_add (perceive_context 1 before_512K))
          = (8, 65790)"
    and "sm_add_y (perceive_context 1 before_512K)
          = sm_add (perceive_context 1 before_512K) AND (- y (perceive_context 1 before_512K))"
    by (simp_all add: before_512K_fields)
  then show ?thesis using s p by (simp add: before_512K_fields perceive_context_y)
qed

subsection \<open>squash and stretch\<close>

lemma squash_t_sorted: "sorted squash_t"
  by (simp add: squash_t_def)

lemma squash_t_length: "length squash_t = 33"
  by (simp add: squash_t_def)

lemma squash_t_bounds:
  assumes "k < 33" shows "1 \<le> squash_t ! k \<and> squash_t ! k \<le> 4094"
proof -
  have "\<forall>v \<in> set squash_t. 1 \<le> v \<and> v \<le> 4094" by (simp add: squash_t_def)
  then show ?thesis using assms by (simp add: squash_t_length)
qed

lemma squash_t_mono: "i \<le> j \<Longrightarrow> j < 33 \<Longrightarrow> squash_t ! i \<le> squash_t ! j"
  using squash_t_sorted by (simp add: sorted_nth_mono squash_t_length)

lemma split_128:
  obtains q w :: int where "d = 128 * q + w" and "0 \<le> w" and "w < 128"
proof
  show "d = 128 * (d div 128) + d mod 128" by simp
  show "0 \<le> d mod 128" by simp
  show "d mod 128 < 128" by simp
qed

lemma div_mod_128:
  assumes "0 \<le> w" and "w < 128"
  shows "(128 * q + w) div 128 = q" and "(128 * q + w) mod 128 = (w::int)"
  using assms by (simp_all add: div_pos_pos_trivial)

lemma squash_inside:
  assumes "- 2047 \<le> 128 * q + w" and "128 * q + w \<le> 2047" and "0 \<le> w" and "w < 128"
  shows "squash (128 * q + w) = squash_num q w div 128"
proof -
  let ?d = "128 * q + w"
  have "?d AND 127 = ?d mod 128"
    using take_bit_eq_mod [of 7 ?d] take_bit_eq_mask [of 7 ?d]
    by (simp add: mask_eq_exp_minus_1)
  then have a: "?d AND 127 = w" using div_mod_128(2) [OF assms(3,4)] by simp
  have "drop_bit 7 ?d = ?d div 128" by (simp add: drop_bit_eq_div)
  then have b: "drop_bit 7 ?d = q" using div_mod_128(1) [OF assms(3,4)] by simp
  have c: "q + 16 + 1 = q + 17" by simp
  have "squash ?d =
      drop_bit 7 (squash_t ! nat (q + 16) * (128 - w) + squash_t ! nat (q + 16 + 1) * w + 64)"
    using assms(1,2) by (simp only: squash_def Let_def a b) simp
  then show ?thesis by (simp only: c squash_num_def drop_bit_eq_div) simp
qed

lemma squash_num_bounds:
  assumes "- 16 \<le> q" and "q \<le> 15" and "0 \<le> w" and "w < 128"
  shows "128 + 64 \<le> squash_num q w \<and> squash_num q w \<le> 4094 * 128 + 64"
proof -
  let ?a = "squash_t ! nat (q + 16)" and ?b = "squash_t ! nat (q + 17)"
  have a: "1 \<le> ?a \<and> ?a \<le> 4094" using assms by (intro squash_t_bounds) auto
  have b: "1 \<le> ?b \<and> ?b \<le> 4094" using assms by (intro squash_t_bounds) auto
  define A where "A = ?a * (128 - w)"
  define B where "B = ?b * w"
  have lo1: "1 * (128 - w) \<le> A" unfolding A_def using a assms by (intro mult_right_mono) auto
  have lo2: "1 * w \<le> B" unfolding B_def using b assms by (intro mult_right_mono) auto
  have hi1: "A \<le> 4094 * (128 - w)" unfolding A_def using a assms by (intro mult_right_mono) auto
  have hi2: "B \<le> 4094 * w" unfolding B_def using b assms by (intro mult_right_mono) auto
  have "squash_num q w = A + B + 64" by (simp add: squash_num_def A_def B_def)
  then show ?thesis using lo1 lo2 hi1 hi2 by auto
qed

lemma squash_inside_bounds:
  assumes "- 2047 \<le> d" and "d \<le> 2047"
  shows "1 \<le> squash d \<and> squash d \<le> 4094"
proof -
  obtain q w where d: "d = 128 * q + w" and w: "0 \<le> w" "w < 128" by (rule split_128)
  have q: "- 16 \<le> q" "q \<le> 15" using assms d w by linarith+
  have "192 div 128 \<le> squash_num q w div 128"
    using squash_num_bounds [OF q w] by (intro zdiv_mono1) auto
  moreover have "squash_num q w div 128 \<le> (4094 * 128 + 64) div 128"
    using squash_num_bounds [OF q w] by (intro zdiv_mono1) auto
  ultimately show ?thesis using squash_inside [of q w] assms w unfolding d by simp
qed

lemma squash_bounds: "0 \<le> squash d \<and> squash d \<le> 4095"
proof (cases "- 2047 \<le> d \<and> d \<le> 2047")
  case True
  then show ?thesis using squash_inside_bounds [of d] by auto
next
  case False
  then show ?thesis by (auto simp: squash_def)
qed

lemma squash_step:
  assumes "- 2047 \<le> d" and "d < 2047"
  shows "squash d \<le> squash (d + 1)"
proof -
  obtain q w where d: "d = 128 * q + w" and w: "0 \<le> w" "w < 128" by (rule split_128)
  have q: "- 16 \<le> q" "q \<le> 15" using assms d w by linarith+
  let ?a = "squash_t ! nat (q + 16)" and ?b = "squash_t ! nat (q + 17)"
  have ab: "?a \<le> ?b" using q by (intro squash_t_mono) auto
  have sd: "squash d = squash_num q w div 128"
    using squash_inside [of q w] assms w unfolding d by simp
  show ?thesis
  proof (cases "w = 127")
    case True
    have d1: "d + 1 = 128 * (q + 1) + 0" using d True by simp
    have "squash (d + 1) = squash_num (q + 1) 0 div 128"
      unfolding d1 using assms d1 by (intro squash_inside) auto
    moreover have "squash_num (q + 1) 0 = ?b * 128 + 64"
      by (simp add: squash_num_def add.commute)
    moreover have "squash_num q w = ?a + ?b * 127 + 64"
      using True by (simp add: squash_num_def)
    moreover have "(?a + ?b * 127 + 64) div 128 \<le> (?b * 128 + 64) div 128"
      using ab by (intro zdiv_mono1) auto
    ultimately show ?thesis using sd by simp
  next
    case False
    then have lt: "w + 1 < 128" using w by simp
    have d1: "d + 1 = 128 * q + (w + 1)" using d by simp
    have "squash (d + 1) = squash_num q (w + 1) div 128"
      unfolding d1 using assms d1 w lt by (intro squash_inside) auto
    moreover have "squash_num q (w + 1) = squash_num q w + (?b - ?a)"
      by (simp add: squash_num_def algebra_simps)
    ultimately show ?thesis using ab sd by (simp add: zdiv_mono1)
  qed
qed

lemma squash_mono_nat:
  "- 2047 \<le> d \<Longrightarrow> d + int n \<le> 2047 \<Longrightarrow> squash d \<le> squash (d + int n)"
proof (induction n)
  case 0
  then show ?case by simp
next
  case (Suc n)
  have "squash (d + int n) \<le> squash (d + int n + 1)"
    using Suc.prems by (intro squash_step) auto
  moreover have "d + int n + 1 = d + int (Suc n)" by simp
  moreover have "squash d \<le> squash (d + int n)" using Suc by simp
  ultimately show ?case by (simp only: order_trans)
qed

lemma squash_mono:
  assumes "- 2047 \<le> d" and "d \<le> e" and "e \<le> 2047"
  shows "squash d \<le> squash e"
  using squash_mono_nat [of d "nat (e - d)"] assms by simp

lemma squash_2047: "squash 2047 = 4094" and squash_m2047: "squash (- 2047) = 1"
  by (simp_all add: squash_def squash_t_def Let_def)

lemma Stretch_fill_length: "length (Stretch_fill t j i x) = length t"
  by (induction t j i x rule: Stretch_fill.induct) (simp add: Stretch_fill.simps [of _ _ _ _])

lemma Stretch_fill_nth:
  "0 \<le> j \<Longrightarrow> k < length t \<Longrightarrow>
     Stretch_fill t j i x ! k = (if j \<le> int k \<and> int k \<le> i then word_of_int x else t ! k)"
proof (induction t j i x rule: Stretch_fill.induct)
  case (1 t j i x)
  show ?case
  proof (cases "j \<le> i")
    case True
    have "Stretch_fill t j i x ! k = Stretch_fill (t[nat j := word_of_int x]) (j + 1) i x ! k"
      using True by (simp add: Stretch_fill.simps [of t])
    also have "\<dots> = (if j + 1 \<le> int k \<and> int k \<le> i then word_of_int x
                      else t[nat j := word_of_int x] ! k)"
      using "1.IH" [OF True] "1.prems" by simp
    also have "\<dots> = (if j \<le> int k \<and> int k \<le> i then word_of_int x else t ! k)"
      using "1.prems" True by (auto simp: nth_list_update)
    finally show ?thesis .
  next
    case False
    then show ?thesis by (auto simp add: Stretch_fill.simps [of t])
  qed
qed

lemma Stretch_loop_length: "length (Stretch_loop x pi t) = length t"
  by (induction x pi t rule: Stretch_loop.induct)
     (simp add: Stretch_loop.simps [of _ _ _] Stretch_fill_length Let_def)

text \<open>Entries below \<open>pi\<close> are final: later rounds write at \<open>pi\<close> and above.\<close>

lemma Stretch_loop_below:
  "- 2047 \<le> x \<Longrightarrow> 0 \<le> pi \<Longrightarrow> k < length t \<Longrightarrow> int k < pi \<Longrightarrow>
   (x \<le> 2047 \<longrightarrow> pi \<le> squash x + 1) \<Longrightarrow> Stretch_loop x pi t ! k = t ! k"
proof (induction x pi t rule: Stretch_loop.induct)
  case (1 x pi t)
  show ?case
  proof (cases "x \<le> 2047")
    case True
    let ?t = "Stretch_fill t pi (squash x) x"
    have step: "x + 1 \<le> 2047 \<longrightarrow> squash x + 1 \<le> squash (x + 1) + 1"
      using squash_step [of x] "1.prems"(1) by auto
    have "Stretch_loop x pi t ! k = Stretch_loop (x + 1) (squash x + 1) ?t ! k"
      using True by (simp add: Stretch_loop.simps [of x] Let_def)
    also have "\<dots> = ?t ! k"
      using "1.prems" True step squash_bounds [of x]
      by (intro "1.IH" [OF True refl]) (auto simp: Stretch_fill_length)
    also have "\<dots> = t ! k"
      using "1.prems" by (simp add: Stretch_fill_nth)
    finally show ?thesis .
  next
    case False
    then show ?thesis by (simp add: Stretch_loop.simps [of x])
  qed
qed

text \<open>
  Every entry from \<open>pi\<close> up to \<open>squash 2047\<close> receives the first \<open>v\<close> whose
  \<^verbatim>\<open>squash\<close> reaches the entry's index.
\<close>

lemma Stretch_loop_char:
  "- 2047 \<le> x \<Longrightarrow> x \<le> 2048 \<Longrightarrow> length t = 4096 \<Longrightarrow>
   pi = (if x = - 2047 then 0 else squash (x - 1) + 1) \<Longrightarrow> pi \<le> int k \<Longrightarrow> k \<le> 4094 \<Longrightarrow>
   \<exists>v. Stretch_loop x pi t ! k = word_of_int v \<and> x \<le> v \<and> v \<le> 2047 \<and> int k \<le> squash v
       \<and> (v = - 2047 \<or> squash (v - 1) < int k)"
proof (induction x pi t rule: Stretch_loop.induct)
  case (1 x pi t)
  have pi0: "0 \<le> pi" using "1.prems"(4) squash_bounds [of "x - 1"] by auto
  show ?case
  proof (cases "x \<le> 2047")
    case True
    let ?t = "Stretch_fill t pi (squash x) x"
    have unfold: "Stretch_loop x pi t = Stretch_loop (x + 1) (squash x + 1) ?t"
      using True by (simp add: Stretch_loop.simps [of x] Let_def)
    show ?thesis
    proof (cases "int k \<le> squash x")
      case le: True
      have step: "x + 1 \<le> 2047 \<longrightarrow> squash x + 1 \<le> squash (x + 1) + 1"
        using squash_step [of x] "1.prems"(1) by auto
      have "Stretch_loop (x + 1) (squash x + 1) ?t ! k = ?t ! k"
        using "1.prems" le step squash_bounds [of x]
        by (intro Stretch_loop_below) (auto simp: Stretch_fill_length)
      also have "\<dots> = word_of_int x"
        using "1.prems" le pi0 by (simp add: Stretch_fill_nth)
      finally have "Stretch_loop x pi t ! k = word_of_int x" by (simp add: unfold)
      moreover have "x = - 2047 \<or> squash (x - 1) < int k"
        using "1.prems"(4,5) by (auto split: if_splits)
      ultimately show ?thesis using True le by blast
    next
      case gt: False
      have "\<exists>v. Stretch_loop (x + 1) (squash x + 1) ?t ! k = word_of_int v \<and> x + 1 \<le> v
               \<and> v \<le> 2047 \<and> int k \<le> squash v \<and> (v = - 2047 \<or> squash (v - 1) < int k)"
        using "1.prems" True gt
        by (intro "1.IH" [OF True refl]) (auto simp: Stretch_fill_length)
      then show ?thesis unfolding unfold by force
    qed
  next
    case False
    then have "x = 2048" using "1.prems"(2) by simp
    then have "pi = 4095" using "1.prems"(4) by (simp add: squash_2047)
    then show ?thesis using "1.prems"(5,6) by simp
  qed
qed

lemma sint_short: "- 2047 \<le> v \<Longrightarrow> v \<le> 2047 \<Longrightarrow> sint (word_of_int v :: short) = v"
  by (simp add: sint_sbintrunc' signed_take_bit_int_eq_self)

lemma Stretch_t_length: "length Stretch_t = 4096"
  by (simp add: Stretch_t_def Stretch_loop_length)

text \<open>\<^verbatim>\<open>stretch(p)\<close> is the first \<open>v\<close> with \<open>p \<le> squash v\<close>, for \<open>p \<le> 4094\<close>.\<close>

lemma stretch_char:
  assumes "0 \<le> p" and "p \<le> 4094"
  shows "\<exists>v. stretch p = Some v \<and> - 2047 \<le> v \<and> v \<le> 2047 \<and> p \<le> squash v
            \<and> (v = - 2047 \<or> squash (v - 1) < p)"
proof -
  have "\<exists>v. Stretch_loop (- 2047) 0 (replicate 4096 0) ! nat p = word_of_int v \<and> - 2047 \<le> v
          \<and> v \<le> 2047 \<and> int (nat p) \<le> squash v \<and> (v = - 2047 \<or> squash (v - 1) < int (nat p))"
    using assms by (intro Stretch_loop_char) auto
  then obtain v where v: "Stretch_loop (- 2047) 0 (replicate 4096 0) ! nat p = word_of_int v"
      "- 2047 \<le> v" "v \<le> 2047" "p \<le> squash v" "v = - 2047 \<or> squash (v - 1) < p"
    using assms by auto
  have "nat p \<noteq> 4095" using assms by auto
  then have "Stretch_t ! nat p = word_of_int v" by (simp add: Stretch_t_def v(1))
  then have "stretch p = Some v" using assms v(2,3) by (simp add: stretch_def sint_short)
  then show ?thesis using v by blast
qed

lemma stretch_4095: "stretch 4095 = Some 2047"
  by (simp add: stretch_def Stretch_t_def Stretch_loop_length)

lemma stretch_range:
  assumes "0 \<le> p" and "p \<le> 4095"
  shows "\<exists>v. stretch p = Some v \<and> - 2047 \<le> v \<and> v \<le> 2047"
proof (cases "p = 4095")
  case True
  then show ?thesis by (simp add: stretch_4095)
next
  case False
  then show ?thesis using stretch_char [of p] assms by force
qed

lemma stretch_unique:
  assumes "0 \<le> p" and "p \<le> 4094" and "- 2047 \<le> v" and "v \<le> 2047" and "p \<le> squash v"
    and "v = - 2047 \<or> squash (v - 1) < p"
  shows "stretch p = Some v"
proof -
  obtain u where u: "stretch p = Some u" "- 2047 \<le> u" "u \<le> 2047" "p \<le> squash u"
      "u = - 2047 \<or> squash (u - 1) < p"
    using stretch_char [OF assms(1,2)] by blast
  have "\<not> u < v"
  proof
    assume "u < v"
    then have "squash u \<le> squash (v - 1)" using u(2) assms(4) by (intro squash_mono) auto
    then show False using u(4) assms(6) \<open>u < v\<close> u(2) by auto
  qed
  moreover have "\<not> v < u"
  proof
    assume "v < u"
    then have "squash v \<le> squash (u - 1)" using assms(3) u(3) by (intro squash_mono) auto
    then show False using assms(5) u(5) \<open>v < u\<close> assms(3) by auto
  qed
  ultimately show ?thesis using u(1) by simp
qed

lemma squash_t_strict: "i < j \<Longrightarrow> j < 33 \<Longrightarrow> squash_t ! i < squash_t ! j"
proof -
  have "sorted_wrt (<) squash_t" by (simp add: squash_t_def)
  then show "i < j \<Longrightarrow> j < 33 \<Longrightarrow> squash_t ! i < squash_t ! j"
    by (simp add: sorted_wrt_nth_less squash_t_length)
qed

text \<open>Over 128 arguments \<^verbatim>\<open>squash\<close> increases: no plateau is longer than 128.\<close>

lemma squash_step_128:
  assumes "- 2047 \<le> d" and "d + 128 \<le> 2047"
  shows "squash d < squash (d + 128)"
proof -
  obtain q w where d: "d = 128 * q + w" and w: "0 \<le> w" "w < 128" by (rule split_128)
  have q: "- 16 \<le> q" "q \<le> 14" using assms d w by linarith+
  let ?a = "squash_t ! nat (q + 16)" and ?b = "squash_t ! nat (q + 17)"
    and ?c = "squash_t ! nat (q + 18)"
  have "nat (q + 16) < nat (q + 17)" "nat (q + 17) < 33" using q by simp_all
  then have "?a < ?b" by (rule squash_t_strict)
  then have ab: "?a + 1 \<le> ?b" by simp
  have "nat (q + 17) < nat (q + 18)" "nat (q + 18) < 33" using q by simp_all
  then have "?b < ?c" by (rule squash_t_strict)
  then have bc: "?b + 1 \<le> ?c" by simp
  have sd: "squash d = squash_num q w div 128"
    using squash_inside [of q w] assms w unfolding d by simp
  have d1: "d + 128 = 128 * (q + 1) + w" using d by simp
  have sd1: "squash (d + 128) = squash_num (q + 1) w div 128"
    unfolding d1 using assms d1 w by (intro squash_inside) auto
  have n0: "squash_num q w = ?a * (128 - w) + ?b * w + 64"
    by (simp add: squash_num_def)
  have q1: "q + 1 + 16 = q + 17" "q + 1 + 17 = q + 18" by simp_all
  have n1: "squash_num (q + 1) w = ?b * (128 - w) + ?c * w + 64"
    by (simp only: squash_num_def q1)
  have m1: "(?a + 1) * (128 - w) \<le> ?b * (128 - w)"
    using ab w by (intro mult_right_mono) simp_all
  have m2: "(?b + 1) * w \<le> ?c * w"
    using bc w by (intro mult_right_mono) simp_all
  have "squash_num q w + 128 \<le> squash_num (q + 1) w"
    using m1 m2 unfolding n0 n1 by (simp add: algebra_simps)
  then have "(squash_num q w + 128) div 128 \<le> squash_num (q + 1) w div 128"
    by (intro zdiv_mono1) simp_all
  then show ?thesis unfolding sd sd1 by simp
qed

lemma squash_more_values:
  "squash 2 = 2055" "squash 2046 = 4094" "squash (- 1857) = 2" "squash (- 1984) = 2"
  "squash (- 1985) = 1" "squash (- 1) = 2043" "squash 0 = 2047" "squash 1 = 2051"
  by (simp_all add: squash_def squash_t_def Let_def)

text \<open>
  Claim C7, as the code has it.  For \<open>d\<close> in [-2047, 2047],
  \<^verbatim>\<open>stretch(squash(d))\<close> is the least argument \<open>v\<close> at which \<^verbatim>\<open>squash\<close> has
  the value it has at \<open>d\<close>: \<open>v \<le> d\<close>, \<^verbatim>\<open>squash\<close> is constant from \<open>v\<close> to \<open>d\<close> and
  smaller at \<open>v - 1\<close> (unless \<open>v\<close> is -2047), and \<open>d - v\<close> is at most 127.  For
  \<open>p\<close> in [0, 4095], \<^verbatim>\<open>squash(stretch(p))\<close> is \<open>p\<close> exactly when \<open>p\<close> is a value
  that \<^verbatim>\<open>squash\<close> takes on [-2047, 2047], and exactly when \<open>p\<close> is not 4095 and
  is the last of its run of arguments with equal \<^verbatim>\<open>stretch\<close>
  (\<^verbatim>\<open>stretch(p+1)\<close> differs from \<^verbatim>\<open>stretch(p)\<close>): the fixed points are the upper
  ends of the runs, not their centres.
\<close>

theorem stretch_squash_runs:
  "(- 2047 \<le> d \<and> d \<le> 2047 \<longrightarrow>
      (\<exists>v. stretch (squash d) = Some v \<and> - 2047 \<le> v \<and> v \<le> d \<and> d - v \<le> 127
           \<and> squash v = squash d
           \<and> (v = - 2047 \<or> squash (v - 1) < squash d)
           \<and> (\<forall>x. v \<le> x \<and> x \<le> d \<longrightarrow> squash x = squash d)))
   \<and> (0 \<le> p \<and> p \<le> 4095 \<longrightarrow>
      (\<exists>v. stretch p = Some v
           \<and> ((squash v = p) = (\<exists>x. - 2047 \<le> x \<and> x \<le> 2047 \<and> squash x = p))
           \<and> ((squash v = p) = (p \<noteq> 4095 \<and> stretch (p + 1) \<noteq> Some v))))"
proof -
  have part1: "\<exists>v. stretch (squash d) = Some v \<and> - 2047 \<le> v \<and> v \<le> d \<and> d - v \<le> 127
           \<and> squash v = squash d
           \<and> (v = - 2047 \<or> squash (v - 1) < squash d)
           \<and> (\<forall>x. v \<le> x \<and> x \<le> d \<longrightarrow> squash x = squash d)"
    if d: "- 2047 \<le> d" "d \<le> 2047" for d
  proof -
    have r: "0 \<le> squash d" "squash d \<le> 4094" using squash_inside_bounds [OF d] by auto
    obtain v where v: "stretch (squash d) = Some v" "- 2047 \<le> v" "v \<le> 2047"
        "squash d \<le> squash v" "v = - 2047 \<or> squash (v - 1) < squash d"
      using stretch_char [OF r] by blast
    have le: "v \<le> d"
    proof (rule ccontr)
      assume "\<not> v \<le> d"
      then have "squash d \<le> squash (v - 1)" using d(1) v(3) by (intro squash_mono) auto
      then show False using v(5) d(1) \<open>\<not> v \<le> d\<close> by auto
    qed
    have eq: "squash v = squash d" using squash_mono [OF v(2) le d(2)] v(4) by simp
    have near: "d - v \<le> 127"
    proof (rule ccontr)
      assume "\<not> d - v \<le> 127"
      then have far: "v + 128 \<le> d" by simp
      then have "squash v < squash (v + 128)" using v(2) d(2) by (intro squash_step_128) auto
      moreover have "squash (v + 128) \<le> squash d" using far v(2) d(2) by (intro squash_mono) auto
      ultimately show False using eq by simp
    qed
    have "squash x = squash d" if "v \<le> x" "x \<le> d" for x
      using squash_mono [OF v(2) that(1)] squash_mono [of x d] that d v(2) eq by auto
    then show ?thesis using v le eq near by blast
  qed
  have part2: "\<exists>v. stretch p = Some v
           \<and> ((squash v = p) = (\<exists>x. - 2047 \<le> x \<and> x \<le> 2047 \<and> squash x = p))
           \<and> ((squash v = p) = (p \<noteq> 4095 \<and> stretch (p + 1) \<noteq> Some v))"
    if p: "0 \<le> p" "p \<le> 4095"
  proof -
    obtain v where v: "stretch p = Some v" "- 2047 \<le> v" "v \<le> 2047"
      using stretch_range [OF p] by blast
    have "squash v = p" if "- 2047 \<le> x" "x \<le> 2047" "squash x = p" for x
      using part1 [OF that(1,2)] v(1) that(3) by auto
    then have a: "(squash v = p) = (\<exists>x. - 2047 \<le> x \<and> x \<le> 2047 \<and> squash x = p)"
      using v by blast
    have b: "(squash v = p) = (p \<noteq> 4095 \<and> stretch (p + 1) \<noteq> Some v)"
    proof (cases "p = 4095")
      case True
      then have "v = 2047" using v(1) by (simp add: stretch_4095)
      then show ?thesis using True by (simp add: squash_2047)
    next
      case False
      then have p4: "p \<le> 4094" using p by simp
      obtain u where u: "stretch p = Some u" "p \<le> squash u"
          "u = - 2047 \<or> squash (u - 1) < p"
        using stretch_char [OF p(1) p4] by blast
      have uv: "u = v" using u(1) v(1) by simp
      show ?thesis
      proof (cases "p = 4094")
        case True
        have "squash v \<le> 4094" using squash_inside_bounds [OF v(2,3)] by simp
        then have fx: "squash v = p" using u(2) uv True by simp
        have "v \<noteq> 2047"
        proof
          assume "v = 2047"
          then show False using u(3) uv True by (simp add: squash_more_values)
        qed
        then show ?thesis using fx True by (simp add: stretch_4095)
      next
        case False
        then have p3: "0 \<le> p + 1" "p + 1 \<le> 4094" using p p4 by simp_all
        show ?thesis
        proof
          assume fx: "squash v = p"
          have "stretch (p + 1) \<noteq> Some v"
          proof
            assume "stretch (p + 1) = Some v"
            then have "p + 1 \<le> squash v" using stretch_char [OF p3] by auto
            then show False using fx by simp
          qed
          then show "p \<noteq> 4095 \<and> stretch (p + 1) \<noteq> Some v" using p4 by simp
        next
          assume last: "p \<noteq> 4095 \<and> stretch (p + 1) \<noteq> Some v"
          show "squash v = p"
          proof (rule ccontr)
            assume "squash v \<noteq> p"
            then have "p + 1 \<le> squash v" using u(2) uv by simp
            moreover have "v = - 2047 \<or> squash (v - 1) < p + 1" using u(3) uv by auto
            ultimately have "stretch (p + 1) = Some v"
              using p3 v(2,3) by (intro stretch_unique) simp_all
            then show False using last by simp
          qed
        qed
      qed
    qed
    show ?thesis using v(1) a b by blast
  qed
  show ?thesis using part1 part2 by blast
qed

lemma stretch_values:
  "stretch 2 = Some (- 1984)" "stretch 2047 = Some 0" "stretch 2048 = Some 1"
  "stretch 2049 = Some 1" "stretch 2050 = Some 1" "stretch 2051 = Some 1"
  "stretch 2052 = Some 2"
  by (rule stretch_unique; simp add: squash_more_values)+

text \<open>
  The theorem at \<open>d = -1857\<close>, the last argument of the plateau of value 2,
  which starts 127 below at -1984, and at \<open>p = 2051\<close>, the last of the run
  2048, \<dots>, 2051 on which \<^verbatim>\<open>stretch\<close> is 1.
\<close>

theorem stretch_squash_runs_witness:
  "stretch (squash (- 1857)) = Some (- 1984) \<and> squash (- 1984) = squash (- 1857)
   \<and> (- 1857 :: int) - (- 1984) \<le> 127
   \<and> stretch 2051 = Some 1 \<and> squash 1 = 2051 \<and> stretch (2051 + 1) \<noteq> Some 1"
  using stretch_squash_runs [of "- 1857" 2051]
  by (simp add: squash_more_values stretch_values)

text \<open>
  The run 2048, \<dots>, 2051 of arguments on which \<^verbatim>\<open>stretch\<close> is 1 (it is 0 at
  2047 and 2 at 2052): \<^verbatim>\<open>squash(stretch(p))\<close> is 2051 on all of it, so the
  elements 2049 and 2050 in the centre of the run are not fixed, and the one
  fixed point is its upper end.  And \<^verbatim>\<open>stretch(squash(-1857))\<close> is 127 below
  \<open>-1857\<close>.  Claim C7 as it is written, with the centres of the plateaus as
  the fixed points, fails there.
\<close>

theorem stretch_squash_centre_counterexample:
  "stretch 2047 = Some 0 \<and> stretch 2048 = Some 1 \<and> stretch 2049 = Some 1
   \<and> stretch 2050 = Some 1 \<and> stretch 2051 = Some 1 \<and> stretch 2052 = Some 2
   \<and> squash 1 = 2051 \<and> squash 1 \<noteq> 2049 \<and> squash 1 \<noteq> 2050
   \<and> stretch (squash (- 1857)) = Some (- 1984)"
  by (simp add: squash_more_values stretch_values)

subsection \<open>Mixer\<close>

lemma arr_set_Some:
  "arr_set a i v = Some b \<Longrightarrow> 0 \<le> i \<and> i < int (length a) \<and> b = a[nat i := v]"
  by (auto simp: arr_set_def split: if_splits)

lemma arr_get_Some:
  "arr_get a i = Some v \<Longrightarrow> 0 \<le> i \<and> i < int (length a) \<and> v = a ! nat i"
  by (auto simp: arr_get_def split: if_splits)

lemma Mixer_update_loop_frame:
  "Mixer_update_loop g i m = Some m' \<Longrightarrow>
     Mixer_pr m' = Mixer_pr m \<and> Mixer_cxt m' = Mixer_cxt m \<and> Mixer_ncxt m' = Mixer_ncxt m"
proof (induction g i m rule: Mixer_update_loop.induct)
  case (1 g i m)
  show ?case
  proof (cases "i < Mixer_ncxt m")
    case True
    then obtain w where w: "train (Mixer_tx m) (Mixer_wx m) (Mixer_cxt m ! nat i * Mixer_N m)
          (Mixer_nx m) (Mixer_err g m i) = Some w"
      and b: "0 \<le> i \<and> i < int (length (Mixer_pr m)) \<and> i < int (length (Mixer_cxt m))"
      and r: "Mixer_update_loop g (i + 1) (m\<lparr>Mixer_wx := w\<rparr>) = Some m'"
      using "1.prems" by (auto simp: Mixer_update_loop.simps [of g i m] split: if_splits option.splits)
    show ?thesis using "1.IH" [OF True b w r] by simp
  next
    case False
    then show ?thesis using "1.prems" by (simp add: Mixer_update_loop.simps [of g i m])
  qed
qed

lemma Mixer_update_ok:
  assumes "Mixer_pr_ok m" and "Mixer_update g m = Some m'"
  shows "Mixer_pr_ok m'"
proof -
  obtain m1 where m1: "Mixer_update_loop g 0 m = Some m1"
    and m': "m' = m1\<lparr>Mixer_ncxt := 0, Mixer_base := 0, Mixer_nx := 0\<rparr>"
    using assms(2) by (auto simp: Mixer_update_def split: option.splits)
  show ?thesis
    using Mixer_update_loop_frame [OF m1] assms(1) by (simp add: m' Mixer_pr_ok_def)
qed

lemma pr_value_update:
  "list_all pr_value xs \<Longrightarrow> list_all pr_value (xs[k := squash d])"
proof -
  assume a: "list_all pr_value xs"
  have "set (xs[k := squash d]) \<subseteq> insert (squash d) (set xs)"
    by (rule set_update_subset_insert)
  moreover have "pr_value (squash d)" by (auto simp: pr_value_def)
  ultimately show ?thesis using a by (auto simp: list_all_iff)
qed

lemma Mixer_add_frame:
  "Mixer_add x m = Some m' \<Longrightarrow>
     Mixer_pr m' = Mixer_pr m \<and> Mixer_cxt m' = Mixer_cxt m \<and> Mixer_ncxt m' = Mixer_ncxt m"
  by (auto simp: Mixer_add_def split: option.splits)

lemma Mixer_mul_frame:
  "Mixer_mul x m = Some m' \<Longrightarrow>
     Mixer_pr m' = Mixer_pr m \<and> Mixer_cxt m' = Mixer_cxt m \<and> Mixer_ncxt m' = Mixer_ncxt m"
  by (auto simp: Mixer_mul_def Let_def split: option.splits)

lemma Mixer_add_ok:
  assumes "Mixer_pr_ok m" and "Mixer_add x m = Some m'"
  shows "Mixer_pr_ok m'"
  using Mixer_add_frame [OF assms(2)] assms(1) by (simp add: Mixer_pr_ok_def)

lemma Mixer_mul_ok:
  assumes "Mixer_pr_ok m" and "Mixer_mul x m = Some m'"
  shows "Mixer_pr_ok m'"
  using Mixer_mul_frame [OF assms(2)] assms(1) by (simp add: Mixer_pr_ok_def)

lemma Mixer_set_ok:
  assumes "Mixer_pr_ok m" and "Mixer_set cx rng m = Some m'"
  shows "Mixer_pr_ok m'"
proof -
  obtain c where c: "arr_set (Mixer_cxt m) (Mixer_ncxt m) (Mixer_base m + cx) = Some c"
    and m': "m' = m\<lparr>Mixer_cxt := c, Mixer_ncxt := Mixer_ncxt m + 1,
                     Mixer_base := Mixer_base m + rng\<rparr>"
    using assms(2) by (auto simp: Mixer_set_def split: option.splits)
  show ?thesis using arr_set_Some [OF c] assms(1) by (auto simp: m' Mixer_pr_ok_def)
qed

lemma Mixer_pad_frame:
  "Mixer_pad m = Some m' \<Longrightarrow>
     Mixer_pr m' = Mixer_pr m \<and> Mixer_cxt m' = Mixer_cxt m \<and> Mixer_ncxt m' = Mixer_ncxt m
     \<and> MixerCore.more m' = MixerCore.more m"
proof (induction m rule: Mixer_pad.induct)
  case (1 m)
  show ?case
  proof (cases "Mixer_nx m AND 7 \<noteq> 0")
    case True
    then obtain t where t: "arr_set (Mixer_tx m) (Mixer_nx m) 0 = Some t"
      and r: "Mixer_pad (m\<lparr>Mixer_tx := t, Mixer_nx := Mixer_nx m + 1\<rparr>) = Some m'"
      using "1.prems" by (auto simp: Mixer_pad.simps [of m] split: option.splits)
    show ?thesis using "1.IH" [OF True t r] by simp
  next
    case False
    then show ?thesis using "1.prems" by (simp add: Mixer_pad.simps [of m])
  qed
qed

lemma Mixer_p_loop_ok:
  "Mixer_pr_ok m \<Longrightarrow> Mixer_p_loop i m c = Some (m', c') \<Longrightarrow> Mixer_pr_ok m'"
proof (induction i m c rule: Mixer_p_loop.induct)
  case (1 i m c)
  show ?case
  proof (cases "i < Mixer_ncxt m")
    case True
    then obtain dp0 c1 where d: "dot_product (Mixer_tx m) (Mixer_wx m)
          (Mixer_cxt m ! nat i * Mixer_N m) (Mixer_nx m) = Some dp0"
      and b: "0 \<le> i \<and> i < int (length (Mixer_cxt m)) \<and> i < int (length (Mixer_pr m))"
      and a: "Mixer_add (drop_bit 9 (dp0 * 9)) c = Some c1"
      and r: "Mixer_p_loop (i + 1)
                (m\<lparr>Mixer_pr := (Mixer_pr m)[nat i := squash (drop_bit 9 (dp0 * 9))]\<rparr>) c1
              = Some (m', c')"
      using "1.prems"(2)
      by (auto simp: Mixer_p_loop.simps [of i m c] Let_def split: if_splits option.splits)
    have "Mixer_pr_ok (m\<lparr>Mixer_pr := (Mixer_pr m)[nat i := squash (drop_bit 9 (dp0 * 9))]\<rparr>)"
      using "1.prems"(1) by (simp add: Mixer_pr_ok_def pr_value_update)
    then show ?thesis using "1.IH" [OF True b d refl a _ r] by simp
  next
    case False
    then show ?thesis using "1.prems" by (simp add: Mixer_p_loop.simps [of i m c])
  qed
qed

lemma Mixer_direct_frame:
  "Mixer_direct m = Some (r, m') \<Longrightarrow>
     Mixer_pr m' = Mixer_pr m \<and> Mixer_cxt m' = Mixer_cxt m \<and> Mixer_ncxt m' = Mixer_ncxt m"
  by (auto simp: Mixer_direct_def split: option.splits)

lemma Mixer_direct_ok:
  assumes "Mixer_pr_ok m" and "Mixer_direct m = Some (r, m')"
  shows "Mixer_pr_ok m'"
  using Mixer_direct_frame [OF assms(2)] assms(1) by (simp add: Mixer_pr_ok_def)

lemma Mixer_p_ok:
  assumes "Mixer_pr_ok m" and "Mixer_p g m = Some (r, m')"
  shows "Mixer_pr_ok m'"
proof -
  obtain m1 where m1: "Mixer_pad m = Some m1"
    using assms(2) by (auto simp: Mixer_p_def split: option.splits)
  have ok1: "Mixer_pr_ok m1"
    using Mixer_pad_frame [OF m1] assms(1) by (simp add: Mixer_pr_ok_def)
  show ?thesis
  proof (cases "Mixer_mp m1")
    case None
    then show ?thesis
      using assms(2) m1 ok1 by (auto simp: Mixer_p_def intro: Mixer_direct_ok)
  next
    case (Some c)
    then obtain c1 m2 c2 c3 where "Mixer_p_loop 0 m1 c1 = Some (m2, c2)"
      and "m' = m2\<lparr>Mixer_mp := Some c3\<rparr>"
      using assms(2) m1 by (auto simp: Mixer_p_def split: option.splits)
    then show ?thesis
      using Mixer_p_loop_ok [OF ok1, of 0 c1 m2 c2] by (simp add: Mixer_pr_ok_def)
  qed
qed

lemma Mixer_new_ok: "0 < s \<Longrightarrow> Mixer_pr_ok (Mixer_new n m s w)"
  by (simp add: Mixer_pr_ok_def Mixer_new_def MixerCore_new_def MixerCore.extend_def Let_def
      list_all_iff pr_value_def)

lemma Mixer_reach_ok: "Mixer_reach m \<Longrightarrow> Mixer_pr_ok m"
proof (induction rule: Mixer_reach.induct)
  case (reach_new n m s w)
  then show ?case by (simp add: Mixer_new_ok)
next
  case (reach_update m g m')
  then show ?case by (simp add: Mixer_update_ok)
next
  case (reach_add m x m')
  then show ?case by (simp add: Mixer_add_ok)
next
  case (reach_mul m x m')
  then show ?case by (simp add: Mixer_mul_ok)
next
  case (reach_set m cx rng m')
  then show ?case by (simp add: Mixer_set_ok)
next
  case (reach_p m g r m')
  then show ?case by (simp add: Mixer_p_ok)
next
  case (reach_nx m k)
  then show ?case by (simp add: Mixer_pr_ok_def)
next
  case (reach_tx m t)
  then show ?case by (simp add: Mixer_pr_ok_def)
qed

text \<open>
  Claim C10.  For every mixer a program can reach, with \<^verbatim>\<open>y\<close> 0 or 1, and
  every context slot \<open>i\<close> that the loop of \<^verbatim>\<open>Mixer::update\<close> visits
  (\<open>0 \<le> i < ncxt\<close>): \<^verbatim>\<open>pr[i]\<close> is the initial 2048 or an output of
  \<^verbatim>\<open>squash\<close>, it lies in [0, 4095], and the error
  \<^verbatim>\<open>((y<<12)-pr[i])*7\<close> lies in [-32768, 32767], as the source's assertion
  says.
\<close>

theorem Mixer_update_err_in_range:
  assumes "Mixer_reach m" and "y g = 0 \<or> y g = 1" and "0 \<le> i" and "i < Mixer_ncxt m"
  shows "(Mixer_pr m ! nat i = 2048 \<or> (\<exists>d. Mixer_pr m ! nat i = squash d))
         \<and> 0 \<le> Mixer_pr m ! nat i \<and> Mixer_pr m ! nat i \<le> 4095
         \<and> - 32768 \<le> Mixer_err g m i \<and> Mixer_err g m i < 32768"
proof -
  have ok: "Mixer_pr_ok m" by (rule Mixer_reach_ok [OF assms(1)])
  then have k: "nat i < length (Mixer_pr m)" using assms(3,4) by (auto simp: Mixer_pr_ok_def)
  with ok have v: "Mixer_pr m ! nat i = 2048 \<or> (\<exists>d. Mixer_pr m ! nat i = squash d)"
    by (simp add: Mixer_pr_ok_def list_all_length pr_value_def)
  then have r: "0 \<le> Mixer_pr m ! nat i \<and> Mixer_pr m ! nat i \<le> 4095"
    using squash_bounds by auto
  show ?thesis using v r assms(2) by (auto simp: Mixer_err_def)
qed

text \<open>The error that the loop of \<^verbatim>\<open>update\<close> passes to \<^verbatim>\<open>train\<close> is this error.\<close>

lemma Mixer_update_loop_unfold:
  assumes "i < Mixer_ncxt m" and "0 \<le> i" and "i < int (length (Mixer_pr m))"
    and "i < int (length (Mixer_cxt m))"
  shows "Mixer_update_loop g i m =
           (case train (Mixer_tx m) (Mixer_wx m) (Mixer_cxt m ! nat i * Mixer_N m)
                   (Mixer_nx m) (Mixer_err g m i) of
              None \<Rightarrow> None
            | Some w \<Rightarrow> Mixer_update_loop g (i + 1) (m\<lparr>Mixer_wx := w\<rparr>))"
  using assms by (simp add: Mixer_update_loop.simps [of g i m])

lemma mixer8_set_reach: "Mixer_reach mixer8_set"
proof -
  have "Mixer_reach mixer8" unfolding mixer8_def by (rule reach_new) simp_all
  moreover have "Mixer_set 0 1 mixer8 = Some mixer8_set"
    by (simp add: Mixer_set_def arr_set_def mixer8_def mixer8_set_def Mixer_new_def
        MixerCore_new_def MixerCore.extend_def Let_def)
  ultimately show ?thesis by (rule reach_set)
qed

text \<open>
  The theorem at a fresh mixer after \<^verbatim>\<open>set(0, 1)\<close>, with \<^verbatim>\<open>y = 1\<close>: the stored
  prediction is the initial 2048 and the error is 2048 * 7.
\<close>

theorem Mixer_update_err_in_range_witness:
  "Mixer_reach mixer8_set \<and> Mixer_ncxt mixer8_set = 1 \<and> Mixer_pr mixer8_set ! nat 0 = 2048
   \<and> Mixer_err (gctx_init\<lparr>y := 1\<rparr>) mixer8_set 0 = 14336
   \<and> - 32768 \<le> Mixer_err (gctx_init\<lparr>y := 1\<rparr>) mixer8_set 0
   \<and> Mixer_err (gctx_init\<lparr>y := 1\<rparr>) mixer8_set 0 < 32768"
proof -
  have n: "Mixer_ncxt mixer8_set = 1" and p: "Mixer_pr mixer8_set ! nat 0 = 2048"
    by (simp_all add: mixer8_set_def mixer8_def Mixer_new_def MixerCore_new_def
        MixerCore.extend_def Let_def)
  have e: "Mixer_err (gctx_init\<lparr>y := 1\<rparr>) mixer8_set 0 = 14336"
    using p by (simp add: Mixer_err_def)
  have "y (gctx_init\<lparr>y := 1\<rparr>) = 0 \<or> y (gctx_init\<lparr>y := 1\<rparr>) = 1" by simp
  from Mixer_update_err_in_range [OF mixer8_set_reach this, of 0] n
  have "- 32768 \<le> Mixer_err (gctx_init\<lparr>y := 1\<rparr>) mixer8_set 0
        \<and> Mixer_err (gctx_init\<lparr>y := 1\<rparr>) mixer8_set 0 < 32768"
    by simp
  then show ?thesis using mixer8_set_reach n p e by simp
qed

text \<open>
  Claim C5, as the code has it.  \<^verbatim>\<open>mul(x)\<close> reads the slot \<^verbatim>\<open>tx[nx]\<close>, the
  slot that the next \<^verbatim>\<open>add\<close> would write (in \<^verbatim>\<open>contextModel2\<close>, a slot that
  \<^verbatim>\<open>cm.mix\<close> has filled and that \<^verbatim>\<open>m.nx=qq+zz*3\<close> has put beyond the count
  again), writes back its value times \<open>x\<close> divided by 4 (truncated towards
  zero, stored as a \<^verbatim>\<open>short\<close>) and counts the slot as an input.  Every other
  slot, also \<^verbatim>\<open>tx[nx-1]\<close> that was added last, keeps its value.
\<close>

theorem Mixer_mul_slot:
  "Mixer_mul x m =
     (if 0 \<le> Mixer_nx m \<and> Mixer_nx m < int (length (Mixer_tx m))
      then Some (m\<lparr>Mixer_tx := (Mixer_tx m)[nat (Mixer_nx m) :=
                       word_of_int ((sint (Mixer_tx m ! nat (Mixer_nx m)) * x) sdiv 4)],
                    Mixer_nx := Mixer_nx m + 1\<rparr>)
      else None)"
  by (simp add: Mixer_mul_def arr_get_def arr_set_def Let_def)

lemma mixer8_add8_is_add: "Mixer_add 8 mixer8 = Some mixer8_add8"
  by (simp add: Mixer_add_def arr_set_def mixer8_def mixer8_add8_def Mixer_new_def
      MixerCore_new_def MixerCore.extend_def Let_def eval_nat_numeral)

lemma mixer8_add8_fields:
  "Mixer_nx mixer8_add8 = 1" "Mixer_tx mixer8_add8 = [8, 0, 0, 0, 0, 0, 0, 0]"
  by (simp_all add: mixer8_add8_def)

text \<open>
  The theorem after \<^verbatim>\<open>add(8)\<close> on a fresh mixer: \<^verbatim>\<open>mul(5)\<close> rewrites slot 1
  (0 * 5 / 4 = 0) and leaves the 8 in slot 0.
\<close>

theorem Mixer_mul_slot_witness:
  "map_option Mixer_tx (Mixer_mul 5 mixer8_add8) = Some [8, 0, 0, 0, 0, 0, 0, 0]
   \<and> map_option Mixer_nx (Mixer_mul 5 mixer8_add8) = Some 2"
  using Mixer_mul_slot [of 5 mixer8_add8] by (simp add: mixer8_add8_fields)

text \<open>
  Claim C5 as it is written fails there: slot 0 is the input added last, and
  \<^verbatim>\<open>mul(5)\<close> does not rewrite it as 8 * 5 / 4 = 10.
\<close>

theorem Mixer_mul_counterexample:
  "Mixer_add 8 mixer8 = Some mixer8_add8
   \<and> Mixer_tx mixer8_add8 ! nat (Mixer_nx mixer8_add8 - 1) = 8
   \<and> map_option (\<lambda>m. Mixer_tx m ! nat (Mixer_nx mixer8_add8 - 1)) (Mixer_mul 5 mixer8_add8)
       = Some 8
   \<and> (8::int) * 5 sdiv 4 = 10"
  by (simp add: mixer8_add8_is_add mixer8_add8_fields Mixer_mul_def arr_get_def arr_set_def
      Let_def signed_divide_int_def)

subsection \<open>StateMap\<close>

lemma StateMap_new_length: "length (StateMap_t StateMap_new) = 256"
  by (simp only: StateMap_new_def StateMap.simps length_map length_upt)

lemma StateMap_new_nth:
  "k < 256 \<Longrightarrow> StateMap_t StateMap_new ! k = StateMap_init_entry (int k)"
  by (simp only: StateMap_new_def StateMap.simps nth_map length_upt nth_upt) simp

lemma State_table_0: "State_table ! 0 = [1, 2, 0, 0]"
  by (simp add: State_table_def)

lemma StateMap_new_entry_0: "StateMap_t StateMap_new ! 0 = 32768"
  by (simp add: StateMap_new_nth StateMap_init_entry_def nex_def State_table_0 Let_def
      signed_divide_int_def)

lemma div16_range: "0 \<le> (v::int) \<Longrightarrow> v < 65536 \<Longrightarrow> 0 \<le> v div 16 \<and> v div 16 < 4096"
  by auto

text \<open>
  With the pair \<^verbatim>\<open>(sm_shft, sm_add)\<close> on its schedule and \<^verbatim>\<open>sm_add_y\<close> either
  0 or \<^verbatim>\<open>sm_add\<close>, the adjusted entry is again a 16-bit value: the store
  does not wrap.
\<close>

lemma StateMap_adjust_range:
  assumes "smoothing_on_schedule g" and "sm_add_y g = 0 \<or> sm_add_y g = sm_add g"
    and "0 \<le> q" and "q < 65536"
  shows "0 \<le> StateMap_adjust g q \<and> StateMap_adjust g q < 65536"
proof -
  consider "sm_shft g = 7 \<and> sm_add g = 65662" | "sm_shft g = 8 \<and> sm_add g = 65790"
    | "sm_shft g = 9 \<and> sm_add g = 66046"
    using assms(1) by (auto simp: smoothing_on_schedule_def split: if_splits)
  then show ?thesis
  proof cases
    case 1
    then show ?thesis using assms(2,3,4)
      by (auto simp: StateMap_adjust_def drop_bit_eq_div)
  next
    case 2
    then show ?thesis using assms(2,3,4)
      by (auto simp: StateMap_adjust_def drop_bit_eq_div)
  next
    case 3
    then show ?thesis using assms(2,3,4)
      by (auto simp: StateMap_adjust_def drop_bit_eq_div)
  qed
qed

lemma perceive_context_add_y_cases:
  assumes "bitv = 0 \<or> bitv = 1"
  shows "sm_add_y (perceive_context bitv g) = (if bitv = 1 then sm_add (perceive_context bitv g) else 0)"
  using perceive_context_add_y [OF assms, of g] assms by auto

text \<open>
  Claim C3.  After \<^verbatim>\<open>PAQ8Perceive\<close> of a bit 0 or 1, a call \<^verbatim>\<open>p(cx)\<close> on a
  \<^verbatim>\<open>StateMap\<close> whose previous context \<^verbatim>\<open>cxt\<close> and argument are states (0 to
  255) first replaces the entry \<open>q\<close> of the previous context by
  \<open>q + ((sm_add_y - q) >> sm_shft)\<close>, remembers \<open>cx\<close>, and returns the entry of
  \<open>cx\<close> in the table so updated, shifted right by 4, a value in [0, 4095];
  \<^verbatim>\<open>sm_add_y\<close> is \<^verbatim>\<open>sm_add\<close> for the bit 1 and 0 for the bit 0.  When the
  smoothing pair is on its schedule the new entry is that integer itself
  (the 16-bit store does not wrap).
\<close>

theorem StateMap_p_trains_previous:
  assumes "bitv = 0 \<or> bitv = 1"
    and "0 \<le> cx" and "cx < 256"
    and "0 \<le> StateMap_cxt sm" and "StateMap_cxt sm < 256"
    and "length (StateMap_t sm) = 256"
  shows "StateMap_p (perceive_context bitv g) cx sm =
           Some (uint ((StateMap_t sm)[nat (StateMap_cxt sm) :=
                         word_of_int (StateMap_adjust (perceive_context bitv g)
                            (uint (StateMap_t sm ! nat (StateMap_cxt sm))))] ! nat cx) div 16,
                 sm\<lparr>StateMap_cxt := cx,
                    StateMap_t := (StateMap_t sm)[nat (StateMap_cxt sm) :=
                         word_of_int (StateMap_adjust (perceive_context bitv g)
                            (uint (StateMap_t sm ! nat (StateMap_cxt sm))))]\<rparr>)
       \<and> 0 \<le> uint ((StateMap_t sm)[nat (StateMap_cxt sm) :=
                         word_of_int (StateMap_adjust (perceive_context bitv g)
                            (uint (StateMap_t sm ! nat (StateMap_cxt sm))))] ! nat cx) div 16
       \<and> uint ((StateMap_t sm)[nat (StateMap_cxt sm) :=
                         word_of_int (StateMap_adjust (perceive_context bitv g)
                            (uint (StateMap_t sm ! nat (StateMap_cxt sm))))] ! nat cx) div 16 < 4096
       \<and> StateMap_adjust (perceive_context bitv g) (uint (StateMap_t sm ! nat (StateMap_cxt sm)))
           = uint (StateMap_t sm ! nat (StateMap_cxt sm))
             + drop_bit (nat (sm_shft (perceive_context bitv g)))
                 (sm_add_y (perceive_context bitv g) - uint (StateMap_t sm ! nat (StateMap_cxt sm)))
       \<and> sm_add_y (perceive_context bitv g)
           = (if bitv = 1 then sm_add (perceive_context bitv g) else 0)
       \<and> (smoothing_on_schedule g \<longrightarrow>
            uint (word_of_int (StateMap_adjust (perceive_context bitv g)
                    (uint (StateMap_t sm ! nat (StateMap_cxt sm)))) :: U16)
            = StateMap_adjust (perceive_context bitv g)
                (uint (StateMap_t sm ! nat (StateMap_cxt sm))))"
proof -
  let ?g = "perceive_context bitv g"
  let ?q = "uint (StateMap_t sm ! nat (StateMap_cxt sm))"
  let ?t1 = "(StateMap_t sm)[nat (StateMap_cxt sm) := word_of_int (StateMap_adjust ?g ?q)]"
  have 1: "StateMap_p ?g cx sm
             = Some (uint (?t1 ! nat cx) div 16, sm\<lparr>StateMap_cxt := cx, StateMap_t := ?t1\<rparr>)"
    using assms(2-6) by (simp add: StateMap_p_def arr_get_def arr_set_def drop_bit_eq_div)
  have "uint (?t1 ! nat cx) < 65536" using uint_lt2p [of "?t1 ! nat cx"] by simp
  moreover have "0 \<le> uint (?t1 ! nat cx)" by simp
  ultimately have 2: "0 \<le> uint (?t1 ! nat cx) div 16 \<and> uint (?t1 ! nat cx) div 16 < 4096"
    by (rule div16_range [rotated])
  have 3: "sm_add_y ?g = (if bitv = 1 then sm_add ?g else 0)"
    by (rule perceive_context_add_y_cases [OF assms(1)])
  have 4: "uint (word_of_int (StateMap_adjust ?g ?q) :: U16) = StateMap_adjust ?g ?q"
    if s: "smoothing_on_schedule g"
  proof -
    have "smoothing_on_schedule ?g" by (rule perceive_context_on_schedule [OF s])
    moreover have "sm_add_y ?g = 0 \<or> sm_add_y ?g = sm_add ?g" using 3 by auto
    moreover have "0 \<le> ?q" "?q < 65536" using uint_lt2p [of "StateMap_t sm ! nat (StateMap_cxt sm)"] by simp_all
    ultimately have "0 \<le> StateMap_adjust ?g ?q \<and> StateMap_adjust ?g ?q < 65536"
      by (rule StateMap_adjust_range)
    then show ?thesis by (simp add: uint_word_of_int take_bit_eq_mod)
  qed
  show ?thesis using 1 2 3 4 by (simp add: StateMap_adjust_def)
qed

text \<open>
  The theorem for the first bit, 1, on a new \<^verbatim>\<open>StateMap\<close>: the entry of
  state 0 goes from 32768 to 32768 + ((65662 - 32768) >> 7) = 33024, and
  \<^verbatim>\<open>p(0)\<close> returns 33024 >> 4.
\<close>

theorem StateMap_p_trains_previous_witness:
  "map_option fst (StateMap_p (perceive_context 1 gctx_init) 0 StateMap_new) = Some 2064
   \<and> map_option (\<lambda>r. StateMap_t (snd r) ! 0)
        (StateMap_p (perceive_context 1 gctx_init) 0 StateMap_new) = Some 33024
   \<and> sm_add_y (perceive_context 1 gctx_init) = 65662"
proof -
  have g: "sm_shft (perceive_context 1 gctx_init) = 7" "sm_add (perceive_context 1 gctx_init) = 65662"
    by (simp_all add: context_defs)
  have c: "StateMap_cxt StateMap_new = 0" by (simp add: StateMap_new_def)
  have "(1::int) = 0 \<or> (1::int) = 1" by simp
  from StateMap_p_trains_previous [OF this, of 0 StateMap_new gctx_init]
  show ?thesis
    by (simp add: StateMap_new_length StateMap_new_entry_0 c g StateMap_adjust_def
        drop_bit_eq_div)
qed

subsection \<open>The hash element of ContextMap\<close>

lemma mask4: "(15::U8) = mask 4"
  by (simp add: mask_eq_exp_minus_1)

lemma nibble_low: "(push_bit 4 (w::U8) OR v) AND 15 = v AND 15"
  unfolding mask4
  by (rule bit_word_eqI) (auto simp: bit_simps)

lemma slot_cases: "i < 7 \<Longrightarrow> (i::nat) \<in> {0,1,2,3,4,5,6}"
  by auto

lemma slot_word:
  "i \<in> {0,1,2,3,4,5,6} \<Longrightarrow> unat ((of_nat i :: U8) AND 15) = i"
  by auto

lemma last_miss:
  "i \<in> {0,1,2,3,4,5,6} \<Longrightarrow> unat ((0xf0 OR (of_nat i :: U8)) AND 15) = i
     \<and> unat (drop_bit 4 (0xf0 OR (of_nat i :: U8))) = 15"
  by auto

lemma last_hit:
  assumes "i < 7"
  shows "unat ((push_bit 4 (w::U8) OR of_nat i) AND 15) = i"
  using slot_word [OF slot_cases [OF assms]] by (simp add: nibble_low)

lemma E_pri_bound: "0 \<le> E_pri e i \<and> E_pri e i < 0xffff"
proof -
  have "uint (E_bh e ! i ! 0) < 256" using uint_lt2p [of "E_bh e ! i ! 0"] by simp
  then show ?thesis by (simp add: E_pri_def)
qed

lemma E_misses_nth:
  "E_wf e \<Longrightarrow> E_misses e c = (\<forall>i < 7. E_chk e ! i \<noteq> c)"
  by (auto simp: E_misses_def E_wf_def in_set_conv_nth)

lemma E_get_loop_found:
  "i < 7 \<Longrightarrow> E_chk e ! i = ch \<Longrightarrow>
   E_get_loop e ch i b bi = (i, e\<lparr>E_last := push_bit 4 (E_last e) OR of_nat i\<rparr>)"
  by (subst E_get_loop.simps) simp

lemma E_get_loop_step:
  "i < 7 \<Longrightarrow> E_chk e ! i \<noteq> ch \<Longrightarrow>
   E_get_loop e ch i b bi =
     (if E_cand e i \<and> E_pri e i < b then E_get_loop e ch (i + 1) (E_pri e i) i
      else E_get_loop e ch (i + 1) b bi)"
  by (subst E_get_loop.simps) (simp add: Let_def E_cand_def E_pri_def)

lemma E_get_loop_end:
  "\<not> i < 7 \<Longrightarrow> E_get_loop e ch i b bi = (bi, E_replaced e bi ch)"
  by (subst E_get_loop.simps) (simp add: E_replaced_def)

text \<open>The loop stops at the first slot from \<open>i\<close> on that holds the checksum.\<close>

lemma E_get_loop_hit:
  "n = k - i \<Longrightarrow> i \<le> k \<Longrightarrow> k < 7 \<Longrightarrow> E_chk e ! k = c \<Longrightarrow>
   (\<forall>m. i \<le> m \<and> m < k \<longrightarrow> E_chk e ! m \<noteq> c) \<Longrightarrow>
   E_get_loop e c i b bi = (k, e\<lparr>E_last := push_bit 4 (E_last e) OR of_nat k\<rparr>)"
proof (induction n arbitrary: i b bi)
  case 0
  then have "i = k" by simp
  then show ?case using 0 by (simp add: E_get_loop_found)
next
  case (Suc n)
  then have lt: "i < k" and ne: "E_chk e ! i \<noteq> c" by auto
  have ih: "E_get_loop e c (Suc i) b' bi'
              = (k, e\<lparr>E_last := push_bit 4 (E_last e) OR of_nat k\<rparr>)" for b' bi'
    using Suc.prems lt by (intro Suc.IH) auto
  show ?case using lt Suc.prems(3) ne by (simp add: E_get_loop_step ih)
qed

lemma E_best_step:
  assumes "E_best e i b bi"
  shows "E_cand e i \<and> E_pri e i < b \<Longrightarrow> E_best e (i + 1) (E_pri e i) i"
    and "\<not> (E_cand e i \<and> E_pri e i < b) \<Longrightarrow> E_best e (i + 1) b bi"
proof -
  show "E_best e (i + 1) (E_pri e i) i" if "E_cand e i \<and> E_pri e i < b"
    using assms that unfolding E_best_def by (auto simp: less_Suc_eq)
  show "E_best e (i + 1) b bi" if "\<not> (E_cand e i \<and> E_pri e i < b)"
    using assms that E_pri_bound [of e i] unfolding E_best_def by (auto simp: less_Suc_eq)
qed

text \<open>Without a slot that holds the checksum, the loop ends in the replacement.\<close>

lemma E_get_loop_miss:
  "n = 7 - i \<Longrightarrow> i \<le> 7 \<Longrightarrow>
   (\<forall>m. i \<le> m \<and> m < 7 \<longrightarrow> E_chk e ! m \<noteq> c) \<Longrightarrow> E_best e i b bi \<Longrightarrow>
   \<exists>s b'. E_get_loop e c i b bi = (s, E_replaced e s c) \<and> E_best e 7 b' s"
proof (induction n arbitrary: i b bi)
  case 0
  then have "i = 7" by simp
  then show ?case using 0 by (auto simp: E_get_loop_end)
next
  case (Suc n)
  then have lt: "i < 7" and ne: "E_chk e ! i \<noteq> c" by auto
  have ih: "\<exists>s b'. E_get_loop e c (i + 1) b1 bi1 = (s, E_replaced e s c) \<and> E_best e 7 b' s"
    if "E_best e (i + 1) b1 bi1" for b1 bi1
    using Suc.prems lt that by (intro Suc.IH) auto
  show ?case
  proof (cases "E_cand e i \<and> E_pri e i < b")
    case True
    then show ?thesis
      using ih [OF E_best_step(1) [OF Suc.prems(4) True]] lt ne
      by (simp add: E_get_loop_step)
  next
    case False
    then show ?thesis
      using ih [OF E_best_step(2) [OF Suc.prems(4) False]] lt ne
      by (auto simp: E_get_loop_step)
  qed
qed

text \<open>At most two slots are in \<^verbatim>\<open>last\<close>, so one of the first three is a candidate.\<close>

lemma E_cand_exists: "E_cand e 0 \<or> E_cand e 1 \<or> E_cand e 2"
  by (auto simp: E_cand_def)

lemma E_best_final:
  assumes "E_best e 7 b s"
  shows "s < 7 \<and> E_cand e s \<and> (\<forall>i < 7. E_cand e i \<longrightarrow> E_pri e s \<le> E_pri e i)
         \<and> (\<forall>i < s. E_cand e i \<longrightarrow> E_pri e s < E_pri e i)"
proof -
  have "\<not> (\<forall>i < 7. \<not> E_cand e i)"
  proof
    assume a: "\<forall>i < 7. \<not> E_cand e i"
    have "\<not> E_cand e 0" "\<not> E_cand e 1" "\<not> E_cand e 2" using a by simp_all
    then show False using E_cand_exists [of e] by simp
  qed
  then show ?thesis using assms by (auto simp: E_best_def)
qed

lemma E_get_fast:
  assumes "E_wf e" and "unat (E_last e AND 15) < 7"
    and "E_chk e ! unat (E_last e AND 15) = ch + word_of_int j"
  shows "E_get ch j e = Some (unat (E_last e AND 15), e)"
  using assms by (simp add: E_get_def E_wf_def Let_def)

lemma E_get_scan:
  assumes "E_wf e" and "unat (E_last e AND 15) < 7"
    and "E_chk e ! unat (E_last e AND 15) \<noteq> ch + word_of_int j"
    and "E_holds e (ch + word_of_int j) k"
  shows "E_get ch j e = Some (k, e\<lparr>E_last := push_bit 4 (E_last e) OR of_nat k\<rparr>)"
proof -
  have "E_get_loop e (ch + word_of_int j) 0 0xffff 0
          = (k, e\<lparr>E_last := push_bit 4 (E_last e) OR of_nat k\<rparr>)"
    using assms(4) by (intro E_get_loop_hit [OF refl]) (auto simp: E_holds_def)
  then show ?thesis
    using assms(1,2,3) by (simp add: E_get_def E_wf_def Let_def)
qed

lemma E_best_start: "E_best e 0 0xffff 0"
  by (simp add: E_best_def)

lemma E_get_miss:
  assumes "E_wf e" and "unat (E_last e AND 15) < 7" and "E_misses e (ch + word_of_int j)"
  shows "\<exists>s. E_get ch j e = Some (s, E_replaced e s (ch + word_of_int j)) \<and> s < 7
             \<and> E_cand e s
             \<and> (\<forall>i < 7. E_cand e i \<longrightarrow> E_pri e s \<le> E_pri e i)
             \<and> (\<forall>i < s. E_cand e i \<longrightarrow> E_pri e s < E_pri e i)"
proof -
  let ?c = "ch + word_of_int j"
  have "\<forall>m. 0 \<le> m \<and> m < 7 \<longrightarrow> E_chk e ! m \<noteq> ?c"
    using assms(3) by (simp add: E_misses_nth [OF assms(1)])
  then obtain s b' where s: "E_get_loop e ?c 0 0xffff 0 = (s, E_replaced e s ?c)"
      and best: "E_best e 7 b' s"
    using E_get_loop_miss [OF refl, of 0 e ?c "0xffff" 0] E_best_start [of e] by auto
  have ne: "E_chk e ! unat (E_last e AND 15) \<noteq> ?c"
    using assms(2,3) by (simp add: E_misses_nth [OF assms(1)])
  have "E_get ch j e = Some (s, E_replaced e s ?c)"
    using assms(1,2) ne s by (simp add: E_get_def E_wf_def Let_def)
  then show ?thesis using E_best_final [OF best] by blast
qed

text \<open>Either some first slot holds a checksum, or the lookup of it misses.\<close>

lemma E_holds_or_misses:
  assumes "E_wf e"
  shows "E_misses e c \<or> (\<exists>s. E_holds e c s)"
proof (cases "E_misses e c")
  case True
  then show ?thesis by simp
next
  case False
  then have ex: "\<exists>i. i < 7 \<and> E_chk e ! i = c" by (auto simp: E_misses_nth [OF assms])
  define k where "k = (LEAST i. i < 7 \<and> E_chk e ! i = c)"
  have k: "k < 7 \<and> E_chk e ! k = c" unfolding k_def using ex by (rule LeastI_ex)
  have least: "\<not> (i < 7 \<and> E_chk e ! i = c)" if "i < k" for i
    using that unfolding k_def by (rule not_less_Least)
  have "E_holds e c k" using k least by (auto simp: E_holds_def)
  then show ?thesis by blast
qed

lemma E_holds_not_misses: "E_wf e \<Longrightarrow> E_holds e c s \<Longrightarrow> \<not> E_misses e c"
  by (auto simp: E_holds_def E_misses_nth)

text \<open>In a bucket that satisfies the invariant, the fast path agrees with the scan.\<close>

lemma E_inv_fast_is_first:
  assumes "E_inv e" and "E_holds e c s" and "E_chk e ! unat (E_last e AND 15) = c"
  shows "unat (E_last e AND 15) = s"
proof -
  let ?lo = "unat (E_last e AND 15)"
  have lo: "?lo < 7" using assms(1) by (simp add: E_inv_def)
  have s: "s < 7" "E_chk e ! s = c" using assms(2) by (auto simp: E_holds_def)
  show "?lo = s"
  proof (cases "c = 0")
    case True
    have "?lo \<le> s" using assms(1,3) s True by (simp add: E_inv_def)
    moreover have "\<not> ?lo < s" using assms(2,3) by (auto simp: E_holds_def)
    ultimately show ?thesis by simp
  next
    case False
    then show ?thesis using assms(1,3) lo s by (simp add: E_inv_def)
  qed
qed

lemma E_get_present:
  assumes "E_inv e" and "E_holds e (ch + word_of_int j) s"
  shows "E_get ch j e = Some (s, e)
         \<or> E_get ch j e = Some (s, e\<lparr>E_last := push_bit 4 (E_last e) OR of_nat s\<rparr>)"
proof (cases "E_chk e ! unat (E_last e AND 15) = ch + word_of_int j")
  case True
  then show ?thesis
    using E_get_fast [of e ch j] E_inv_fast_is_first [OF assms True] assms(1)
    by (simp add: E_inv_def)
next
  case False
  then show ?thesis
    using E_get_scan [of e ch j s] assms by (simp add: E_inv_def)
qed

lemma E_inv_scan:
  assumes "E_inv e" and "E_holds e c s"
  shows "E_inv (e\<lparr>E_last := push_bit 4 (E_last e) OR of_nat s\<rparr>)"
proof -
  have s: "s < 7" using assms(2) by (auto simp: E_holds_def)
  have lo: "unat ((push_bit 4 (E_last e) OR of_nat s) AND 15) = s"
    by (rule last_hit [OF s])
  have first: "s \<le> i" if "E_chk e ! s = 0" "E_chk e ! i = 0" for i
    using assms(2) that by (metis E_holds_def not_le_imp_less)
  have dist: "\<forall>i < 7. \<forall>k < 7. E_chk e ! i = E_chk e ! k \<and> E_chk e ! i \<noteq> 0 \<longrightarrow> i = k"
    using assms(1) unfolding E_inv_def by blast
  have wf: "E_wf e" using assms(1) by (simp add: E_inv_def)
  show ?thesis unfolding E_inv_def using wf s first dist by (simp add: E_wf_def lo)
qed

lemma E_inv_replaced:
  assumes "E_inv e" and "E_misses e c" and "s < 7"
  shows "E_inv (E_replaced e s c) \<and> E_holds (E_replaced e s c) c s"
proof -
  have wf: "E_wf e" using assms(1) by (simp add: E_inv_def)
  have len: "length (E_chk e) = 7" "length (E_bh e) = 7" using wf by (simp_all add: E_wf_def)
  have lo: "unat ((0xf0 OR (of_nat s :: U8)) AND 15) = s"
    using last_miss [OF slot_cases [OF assms(3)]] by simp
  have miss: "E_chk e ! i \<noteq> c" if "i < 7" for i
    using assms(2) that by (simp add: E_misses_nth [OF wf])
  have nth: "(E_chk e)[s := c] ! i = (if i = s then c else E_chk e ! i)" if "i < 7" for i
    using that len by (simp add: nth_list_update)
  have wf': "E_wf (E_replaced e s c)"
    using wf assms(3) by (auto simp: E_wf_def E_replaced_def nth_list_update)
  have old: "\<forall>i < 7. \<forall>k < 7. E_chk e ! i = E_chk e ! k \<and> E_chk e ! i \<noteq> 0 \<longrightarrow> i = k"
    using assms(1) unfolding E_inv_def by blast
  have dist: "i = k" if "i < 7" "k < 7" "(E_chk e)[s := c] ! i = (E_chk e)[s := c] ! k"
      "(E_chk e)[s := c] ! i \<noteq> 0" for i k
  proof (cases "i = s \<or> k = s")
    case True
    then show ?thesis using that miss by (auto simp: nth split: if_splits)
  next
    case False
    then show ?thesis using that old by (simp add: nth)
  qed
  have first: "s \<le> i" if "i < 7" "(E_chk e)[s := c] ! s = 0"
      "(E_chk e)[s := c] ! i = 0" for i
  proof -
    have "c = 0" using that(2) nth [OF assms(3)] by simp
    moreover have "(if i = s then c else E_chk e ! i) = 0" using that(3) nth [OF that(1)] by simp
    ultimately have "i = s" using miss [OF that(1)] by (simp split: if_splits)
    then show ?thesis by simp
  qed
  have dist': "\<forall>i < 7. \<forall>k < 7. (E_chk e)[s := c] ! i = (E_chk e)[s := c] ! k
                  \<and> (E_chk e)[s := c] ! i \<noteq> 0 \<longrightarrow> i = k"
    using dist by blast
  have first': "\<forall>i < 7. (E_chk e)[s := c] ! s = 0 \<and> (E_chk e)[s := c] ! i = 0 \<longrightarrow> s \<le> i"
    using first by blast
  have "E_inv (E_replaced e s c)"
    unfolding E_inv_def using wf' dist' first' assms(3)
    by (simp add: E_replaced_def lo)
  moreover have "E_holds (E_replaced e s c) c s"
    using assms(3) miss by (auto simp: E_holds_def E_replaced_def nth)
  ultimately show ?thesis by simp
qed

text \<open>A lookup keeps the invariant, and its checksum is then in the slot it returns.\<close>

lemma E_get_establishes:
  assumes "E_inv e" and "E_get ch j e = Some (s, e')"
  shows "E_inv e' \<and> E_holds e' (ch + word_of_int j) s"
proof -
  let ?c = "ch + word_of_int j"
  have wf: "E_wf e" "unat (E_last e AND 15) < 7" using assms(1) by (simp_all add: E_inv_def)
  consider "E_misses e ?c" | k where "E_holds e ?c k" using E_holds_or_misses [OF wf(1)] by blast
  then show ?thesis
  proof cases
    case 1
    obtain r where r: "E_get ch j e = Some (r, E_replaced e r ?c)" "r < 7"
      using E_get_miss [OF wf 1] by blast
    then have "s = r" "e' = E_replaced e r ?c" using assms(2) by simp_all
    then show ?thesis using E_inv_replaced [OF assms(1) 1 r(2)] by simp
  next
    case 2
    have h: "E_holds (e\<lparr>E_last := w\<rparr>) ?c k" for w using 2 by (simp add: E_holds_def)
    show ?thesis
      using E_get_present [OF assms(1) 2] assms E_inv_scan [OF assms(1) 2] 2 h by auto
  qed
qed

text \<open>A lookup of another checksum moves the first slot of \<open>c\<close> only by replacing it.\<close>

lemma E_get_keeps:
  assumes "E_inv e" and "E_holds e c s" and "E_get ch j e = Some (r, e')"
    and "\<not> (E_misses e (ch + word_of_int j) \<and> r = s)"
  shows "E_holds e' c s"
proof -
  let ?c2 = "ch + word_of_int j"
  have wf: "E_wf e" "unat (E_last e AND 15) < 7" using assms(1) by (simp_all add: E_inv_def)
  consider "E_misses e ?c2" | k where "E_holds e ?c2 k"
    using E_holds_or_misses [OF wf(1)] by blast
  then show ?thesis
  proof cases
    case 1
    obtain q where q: "E_get ch j e = Some (q, E_replaced e q ?c2)" "q < 7"
      using E_get_miss [OF wf 1] by blast
    then have e': "r = q" "e' = E_replaced e q ?c2" using assms(3) by simp_all
    have "q \<noteq> s" using assms(4) 1 e' by simp
    moreover have "?c2 \<noteq> c"
      using 1 assms(2) by (auto simp: E_misses_nth [OF wf(1)] E_holds_def)
    moreover have "length (E_chk e) = 7" using wf by (simp add: E_wf_def)
    ultimately show ?thesis
      using assms(2) q(2) by (auto simp: e' E_holds_def E_replaced_def nth_list_update)
  next
    case 2
    have h: "E_holds (e\<lparr>E_last := w\<rparr>) c s" for w using assms(2) by (simp add: E_holds_def)
    show ?thesis using E_get_present [OF assms(1) 2] assms(2,3) h by auto
  qed
qed

lemma E_store_keeps:
  assumes "E_inv e" and "s < 7" and "k < 7"
  shows "E_inv (e\<lparr>E_bh := (E_bh e)[s := (E_bh e ! s)[k := v]]\<rparr>)"
    and "E_holds e c r \<Longrightarrow> E_holds (e\<lparr>E_bh := (E_bh e)[s := (E_bh e ! s)[k := v]]\<rparr>) c r"
proof -
  have wf: "E_wf (e\<lparr>E_bh := (E_bh e)[s := (E_bh e ! s)[k := v]]\<rparr>)"
    using assms by (auto simp: E_inv_def E_wf_def nth_list_update)
  have lo: "unat (E_last e AND 15) < 7" using assms(1) by (simp add: E_inv_def)
  have dist: "\<forall>i < 7. \<forall>k < 7. E_chk e ! i = E_chk e ! k \<and> E_chk e ! i \<noteq> 0 \<longrightarrow> i = k"
    using assms(1) unfolding E_inv_def by blast
  have first: "\<forall>i < 7. E_chk e ! unat (E_last e AND 15) = 0 \<and> E_chk e ! i = 0
                   \<longrightarrow> unat (E_last e AND 15) \<le> i"
    using assms(1) unfolding E_inv_def by blast
  show "E_inv (e\<lparr>E_bh := (E_bh e)[s := (E_bh e ! s)[k := v]]\<rparr>)"
    unfolding E_inv_def using wf lo dist first by simp
  show "E_holds (e\<lparr>E_bh := (E_bh e)[s := (E_bh e ! s)[k := v]]\<rparr>) c r" if "E_holds e c r"
    using that by (simp add: E_holds_def)
qed

lemma E_run_keeps:
  "E_inv e \<Longrightarrow> E_holds e c s \<Longrightarrow> E_run ops e = Some (e2, rs) \<Longrightarrow> s \<notin> set rs \<Longrightarrow>
   E_inv e2 \<and> E_holds e2 c s"
proof (induction ops arbitrary: e rs)
  case Nil
  then show ?case by simp
next
  case (Cons op ops)
  show ?case
  proof (cases op)
    case (Lookup ch j)
    obtain r e1 rs1 where g: "E_get ch j e = Some (r, e1)" and run: "E_run ops e1 = Some (e2, rs1)"
      and rs: "rs = (if E_misses e (ch + word_of_int j) then [r] else []) @ rs1"
      using Cons.prems(3) Lookup by (auto split: option.splits)
    have "\<not> (E_misses e (ch + word_of_int j) \<and> r = s)" and "s \<notin> set rs1"
      using Cons.prems(4) rs by (auto split: if_splits)
    then show ?thesis
      using Cons.IH [OF _ _ run] E_get_establishes [OF Cons.prems(1) g]
        E_get_keeps [OF Cons.prems(1,2) g] by simp
  next
    case (Store q k v)
    then have b: "q < 7" "k < 7"
      and run: "E_run ops (e\<lparr>E_bh := (E_bh e)[q := (E_bh e ! q)[k := v]]\<rparr>) = Some (e2, rs)"
      using Cons.prems(3) by (auto split: if_splits)
    show ?thesis
      using Cons.IH [OF E_store_keeps(1) [OF Cons.prems(1) b]
                        E_store_keeps(2) [OF Cons.prems(1) b Cons.prems(2)] run Cons.prems(4)]
      by simp
  qed
qed

lemma E_zero_inv: "E_inv E_zero"
  by (simp add: E_inv_def E_wf_def E_zero_def)
lemma E_zero_fields:
  "E_chk E_zero ! i = (if i < 7 then 0 else E_chk E_zero ! i)"
  "unat (E_last E_zero AND 15) = 0" "unat (drop_bit 4 (E_last E_zero)) = 0"
  "i < 7 \<Longrightarrow> E_pri E_zero i = 0"
  by (simp_all add: E_zero_def E_pri_def)

lemma E_zero_wf: "E_wf E_zero"
  by (simp add: E_wf_def E_zero_def)

lemma E_get_zero_miss:
  assumes "ch + word_of_int j \<noteq> 0"
  shows "E_get ch j E_zero = Some (1, E_replaced E_zero 1 (ch + word_of_int j))"
proof -
  let ?c = "ch + word_of_int j"
  have miss: "E_misses E_zero ?c" using assms by (auto simp: E_misses_def E_zero_def)
  obtain s where s: "E_get ch j E_zero = Some (s, E_replaced E_zero s ?c)" "s < 7"
      "E_cand E_zero s" "\<forall>i < s. E_cand E_zero i \<longrightarrow> E_pri E_zero s < E_pri E_zero i"
    using E_get_miss [OF E_zero_wf _ miss] by (auto simp: E_zero_fields)
  have "s \<noteq> 0" using s(3) by (auto simp: E_cand_def E_zero_fields)
  moreover have "\<not> 1 < s"
  proof
    assume "1 < s"
    moreover have "E_cand E_zero 1" by (simp add: E_cand_def E_zero_fields)
    ultimately have "E_pri E_zero s < E_pri E_zero 1" using s(4) by blast
    then show False using s(2) by (simp add: E_zero_fields)
  qed
  ultimately have "s = 1" by simp
  then show ?thesis using s(1) by simp
qed

lemma E_get_zero:
  "E_get ch j E_zero =
     Some (if ch + word_of_int j = 0 then (0, E_zero)
           else (1, E_replaced E_zero 1 (ch + word_of_int j)))"
proof (cases "ch + word_of_int j = 0")
  case True
  then show ?thesis by (simp add: E_get_def E_zero_def Let_def)
next
  case False
  then show ?thesis using E_get_zero_miss [OF False] by simp
qed

text \<open>
  Claim C4, as the code has it, for the bucket \<^verbatim>\<open>ContextMap::E\<close> of the
  bit-history table.  (1) The first lookup in a zeroed bucket returns slot 0
  only when the checksum plus distinguisher is 0 (mod 65536); otherwise it
  returns slot 1, because the zero byte \<^verbatim>\<open>last\<close> names slot 0 as recently
  used.  (2) In a bucket that arises from a zeroed one, a lookup returns a
  slot \<open>s\<close>, and after any further lookups and stores of state bytes that do
  not replace \<open>s\<close>, the same lookup returns \<open>s\<close> again.  (3) A lookup whose
  checksum is in no slot replaces the first slot of lowest priority
  \<^verbatim>\<open>bh[slot][0]\<close> among the slots that are in neither nibble of \<^verbatim>\<open>last\<close>;
  it stores the checksum there, zeroes the slot's seven bytes and sets
  \<^verbatim>\<open>last\<close> to \<^verbatim>\<open>0xf0|slot\<close>.
\<close>

theorem E_get_bucket:
  "E_get ch j E_zero =
     Some (if ch + word_of_int j = 0 then (0, E_zero)
           else (1, E_replaced E_zero 1 (ch + word_of_int j)))
   \<and> (E_inv e \<longrightarrow>
        (\<exists>s e1. E_get ch j e = Some (s, e1) \<and> E_inv e1
           \<and> (\<forall>ops e2 rs. E_run ops e1 = Some (e2, rs) \<and> s \<notin> set rs
                 \<longrightarrow> (\<exists>e3. E_get ch j e2 = Some (s, e3)))))
   \<and> (E_inv e \<and> E_misses e (ch + word_of_int j) \<longrightarrow>
        (\<exists>s. E_get ch j e = Some (s, E_replaced e s (ch + word_of_int j)) \<and> s < 7
           \<and> unat (E_last e AND 15) \<noteq> s \<and> unat (drop_bit 4 (E_last e)) \<noteq> s
           \<and> (\<forall>i < 7. unat (E_last e AND 15) \<noteq> i \<and> unat (drop_bit 4 (E_last e)) \<noteq> i
                 \<longrightarrow> uint (E_bh e ! s ! 0) \<le> uint (E_bh e ! i ! 0))
           \<and> (\<forall>i < s. unat (E_last e AND 15) \<noteq> i \<and> unat (drop_bit 4 (E_last e)) \<noteq> i
                 \<longrightarrow> uint (E_bh e ! s ! 0) < uint (E_bh e ! i ! 0))))"
proof -
  let ?c = "ch + word_of_int j"
  have part2: "\<exists>s e1. E_get ch j e = Some (s, e1) \<and> E_inv e1
           \<and> (\<forall>ops e2 rs. E_run ops e1 = Some (e2, rs) \<and> s \<notin> set rs
                 \<longrightarrow> (\<exists>e3. E_get ch j e2 = Some (s, e3)))"
    if inv: "E_inv e"
  proof -
    have "unat (E_last e AND 15) < length (E_chk e)" using inv by (simp add: E_inv_def E_wf_def)
    then obtain s e1 where g: "E_get ch j e = Some (s, e1)"
      by (cases "E_get ch j e") (auto simp: E_get_def Let_def split: if_splits)
    have h: "E_inv e1" "E_holds e1 ?c s" using E_get_establishes [OF inv g] by simp_all
    have "\<exists>e3. E_get ch j e2 = Some (s, e3)"
      if "E_run ops e1 = Some (e2, rs)" "s \<notin> set rs" for ops e2 rs
      using E_run_keeps [OF h that] E_get_present [of e2 ch j s] by auto
    then show ?thesis using g h(1) by blast
  qed
  have part3: "\<exists>s. E_get ch j e = Some (s, E_replaced e s ?c) \<and> s < 7
           \<and> unat (E_last e AND 15) \<noteq> s \<and> unat (drop_bit 4 (E_last e)) \<noteq> s
           \<and> (\<forall>i < 7. unat (E_last e AND 15) \<noteq> i \<and> unat (drop_bit 4 (E_last e)) \<noteq> i
                 \<longrightarrow> uint (E_bh e ! s ! 0) \<le> uint (E_bh e ! i ! 0))
           \<and> (\<forall>i < s. unat (E_last e AND 15) \<noteq> i \<and> unat (drop_bit 4 (E_last e)) \<noteq> i
                 \<longrightarrow> uint (E_bh e ! s ! 0) < uint (E_bh e ! i ! 0))"
    if inv: "E_inv e" and miss: "E_misses e ?c"
  proof -
    have wf: "E_wf e" "unat (E_last e AND 15) < 7" using inv by (simp_all add: E_inv_def)
    show ?thesis using E_get_miss [OF wf miss] by (simp add: E_cand_def E_pri_def)
  qed
  show ?thesis using E_get_zero [of ch j] part2 part3 by blast
qed

lemma E_run_example:
  "E_run [Lookup 2 0, Store 1 0 5, Lookup 3 0] (E_replaced E_zero 1 1)
     = Some (E_after_three, [0, 2])"
  by code_simp

text \<open>
  The theorem for the checksum 1 in a zeroed bucket: the lookup returns slot
  1; two lookups of other checksums and a store replace the slots 0 and 2;
  the lookup of 1 then returns slot 1 again.
\<close>

theorem E_get_bucket_witness:
  "E_inv E_zero \<and> E_get 1 0 E_zero = Some (1, E_replaced E_zero 1 1)
   \<and> E_run [Lookup 2 0, Store 1 0 5, Lookup 3 0] (E_replaced E_zero 1 1)
       = Some (E_after_three, [0, 2])
   \<and> map_option fst (E_get 1 0 E_after_three) = Some 1"
proof -
  have g: "E_get 1 0 E_zero = Some (1, E_replaced E_zero 1 1)"
    using E_get_zero [of 1 0] by simp
  obtain s e1 where a: "E_get 1 0 E_zero = Some (s, e1)"
    and b: "\<forall>ops e2 rs. E_run ops e1 = Some (e2, rs) \<and> s \<notin> set rs
              \<longrightarrow> (\<exists>e3. E_get 1 0 e2 = Some (s, e3))"
    using E_get_bucket [of 1 0 E_zero] E_zero_inv by blast
  have s: "s = 1" "e1 = E_replaced E_zero 1 1" using a g by auto
  have "(1::nat) \<notin> set [0, 2]" by simp
  then have "\<exists>e3. E_get 1 0 E_after_three = Some (1, e3)"
    using b E_run_example unfolding s by blast
  then have "map_option fst (E_get 1 0 E_after_three) = Some 1" by auto
  then show ?thesis using E_zero_inv g E_run_example by blast
qed

text \<open>
  Claim C4 as it is written fails in its first part: the first lookup in a
  zeroed bucket, here of the checksum 1, returns slot 1.
\<close>

theorem E_get_first_access_counterexample:
  "map_option fst (E_get 1 0 E_zero) = Some 1 \<and> (1::nat) \<noteq> 0"
  by (simp add: E_get_zero)

subsection \<open>The run prediction\<close>

lemma ilog_nonneg: "0 \<le> ilog x"
  by (simp add: ilog_def)

lemma Ilog_x_1: "Ilog_x (Suc 0) = 14155776"
  by (simp add: Ilog_x.simps)

lemma Ilog_x_2: "Ilog_x 2 = 272336110"
  using Ilog_x.simps [of 2] by (simp add: Ilog_x_1 signed_divide_int_def)

lemma ilog_2: "ilog 2 = 16"
  by (simp add: ilog_def Ilog_t_def Ilog_x_2 drop_bit_eq_div)

lemma sdiv_nonneg_4: "0 \<le> a \<Longrightarrow> a sdiv 4 = a div (4::int)"
  by (simp add: signed_divide_int_def sgn_if)

lemma run_sign: "(drop_bit n (uint r) AND 1) * 2 - 1 = (if bit r n then 1 else - 1 :: int)"
proof -
  have "drop_bit n (uint r) AND 1 = (if bit (uint r) n then 1 else 0 :: int)"
    by (simp add: and_one_eq mod_2_eq_odd bit_iff_odd_drop_bit)
  moreover have "bit (uint r) n = bit r n"
    by (auto simp add: bit_uint_iff dest: bit_imp_le_length)
  ultimately show ?thesis by simp
qed

lemma run_flag: "(uint r AND 1 \<noteq> 0) = odd (uint (r :: U8))"
  by (simp add: and_one_eq mod_2_eq_odd)

text \<open>
  Claim C6, as the code has it.  When the byte seen last in this context
  agrees with the bits of the current byte already known
  (\<open>(r1 + 256) >> (8 - bpos) = cc\<close>), the input given to the mixer is the sign
  of the predicted bit (bit \<open>7 - bpos\<close> of that byte: \<open>+1\<close> for a one, \<open>-1\<close> for
  a zero) times \<open>ilog (count + 1) * 13\<close> when the low bit of the count byte is
  clear, and times \<open>(ilog (count + 1) * 15) / 4\<close> (integer division) when it
  is set: the factor \<open>15/4\<close> takes the place of \<open>13\<close>, it does not multiply
  it.  Otherwise the input is 0.  The block stores this input, cut to 16
  bits, in the next free slot of the mixer.
\<close>

theorem mix1_run_input_value:
  "mix1_run_input g cc r0 r1 =
     (if (uint r1 + 256) div 2 ^ nat (8 - bpos g) = cc
      then (if bit r1 (nat (7 - bpos g)) then 1 else - 1) *
           (if even (uint r0) then ilog (word_of_int (uint r0 + 1)) * 13
            else (ilog (word_of_int (uint r0 + 1)) * 15) div 4)
      else 0)
   \<and> mix1_run_predict g cc r0 r1 m = Mixer_add (mix1_run_input g cc r0 r1) m"
proof -
  have "0 \<le> ilog (word_of_int (uint r0 + 1)) * 15"
    using ilog_nonneg [of "word_of_int (uint r0 + 1)"] by simp
  then have d: "(ilog (word_of_int (uint r0 + 1)) * 15) sdiv 4
      = (ilog (word_of_int (uint r0 + 1)) * 15) div 4"
    by (rule sdiv_nonneg_4)
  show ?thesis
    unfolding mix1_run_input_def mix1_run_predict_def Let_def run_sign run_flag d
    by (simp add: drop_bit_eq_div)
qed

text \<open>
  A context whose count byte is 1 (one occurrence, flag set) and whose last
  byte is \<open>0x80\<close>, at a byte boundary: the input is \<open>(16 * 15) / 4 = 60\<close>, not
  \<open>16 * (15/4 * 13) = 780\<close>.
\<close>

theorem mix1_run_input_counterexample:
  "mix1_run_input (gctx_init\<lparr>bpos := 0\<rparr>) 1 1 128 = 60
   \<and> ilog (word_of_int (uint (1 :: U8) + 1)) = 16
   \<and> (60 :: int) \<noteq> (16 * (15 * 13)) div 4"
  by (simp add: mix1_run_input_def ilog_2 signed_divide_int_def)

subsection \<open>ByteMixer\<close>

lemma ByteMixer_fill_fst: "fst (ByteMixer_fill vocab i s) = (fst s)[i := snd s]"
  by (simp add: ByteMixer_fill_def)

lemma ByteMixer_fill_snd:
  "snd (ByteMixer_fill vocab i s) = (if vocab ! i then snd s + 1 else snd s)"
  by (simp add: ByteMixer_fill_def)

lemma ByteMixer_fold_inv:
  assumes "n \<le> 256" "256 \<le> length vocab"
  shows "length (fst (fold (ByteMixer_fill vocab) [0..<n] (replicate 256 0, 0))) = 256
       \<and> snd (fold (ByteMixer_fill vocab) [0..<n] (replicate 256 0, 0)) = vocab_rank vocab n
       \<and> (\<forall>i<n. fst (fold (ByteMixer_fill vocab) [0..<n] (replicate 256 0, 0)) ! i
                   = vocab_rank vocab i)"
  using assms
proof (induction n)
  case 0
  show ?case by (simp add: vocab_rank_def)
next
  case (Suc n)
  let ?s = "fold (ByteMixer_fill vocab) [0..<n] (replicate 256 0, 0)"
  from Suc have ih: "length (fst ?s) = 256" "snd ?s = vocab_rank vocab n"
      "\<forall>i<n. fst ?s ! i = vocab_rank vocab i"
    by simp_all
  have n: "n < length vocab" "n < 256" using Suc.prems by simp_all
  have step: "fold (ByteMixer_fill vocab) [0..<Suc n] (replicate 256 0, 0)
      = ByteMixer_fill vocab n ?s"
    by simp
  have r: "vocab_rank vocab (Suc n) = (if vocab ! n then vocab_rank vocab n + 1 else vocab_rank vocab n)"
    using n(1) by (simp add: vocab_rank_def take_Suc_conv_app_nth)
  show ?case
    unfolding step ByteMixer_fill_fst ByteMixer_fill_snd
    using ih n r by (auto simp add: nth_list_update less_Suc_eq)
qed

lemma ByteMixer_new_byte_map:
  assumes "ByteMixer_new vocab vs = Some bm" "i < 256"
  shows "ByteMixer_byte_map bm ! i = vocab_rank vocab i"
proof -
  have l: "256 \<le> length vocab"
    using assms(1) by (simp add: ByteMixer_new_def split: if_splits)
  have "ByteMixer_byte_map bm = fst (fold (ByteMixer_fill vocab) [0..<256] (replicate 256 0, 0))"
    using assms(1) by (auto simp add: ByteMixer_new_def split: if_splits)
  then show ?thesis
    using ByteMixer_fold_inv [of 256 vocab] l assms(2) by simp
qed

lemma vocab_rank_AB: "vocab_rank vocab_AB 65 = 0" "vocab_rank vocab_AB 66 = 1"
  by (simp_all add: vocab_rank_def vocab_AB_def)

lemma vocab_rank_Suc:
  "i < length v \<Longrightarrow>
     vocab_rank v (Suc i) = (if v ! i then vocab_rank v i + 1 else vocab_rank v i)"
  by (simp add: vocab_rank_def take_Suc_conv_app_nth)

lemma vocab_rank_mono:
  assumes "i \<le> j"
  shows "vocab_rank v i \<le> vocab_rank v j"
proof -
  from assms have "take j v = take i v @ take (j - i) (drop i v)"
    by (metis le_add_diff_inverse take_add)
  then show ?thesis by (simp add: vocab_rank_def)
qed

lemma vocab_rank_less:
  assumes "i < j" "j \<le> length v" "v ! i"
  shows "vocab_rank v i < vocab_rank v j"
proof -
  have "vocab_rank v (Suc i) = vocab_rank v i + 1"
    using assms by (simp add: vocab_rank_Suc)
  moreover have "vocab_rank v (Suc i) \<le> vocab_rank v j"
    using assms(1) by (intro vocab_rank_mono) simp
  ultimately show ?thesis by simp
qed

lemma SetInput_calls_append:
  "SetInput_calls (xs @ ys) bm =
     (case SetInput_calls xs bm of None \<Rightarrow> None | Some b \<Rightarrow> SetInput_calls ys b)"
  by (induction xs arbitrary: bm) (simp_all split: option.splits)

lemma SetInput_outside:
  assumes "i < length (ByteMixer_vocab b)" "\<not> ByteMixer_vocab b ! i"
  shows "SetInput (int i) x b = Some b"
  using assms by (simp add: SetInput_def)

lemma SetInput_inside:
  assumes "i < length (ByteMixer_vocab b)" "ByteMixer_vocab b ! i"
    "ByteMixer_offset b < length (ByteMixer_inputs b)"
  shows "SetInput (int i) x b =
     Some (b\<lparr>ByteMixer_inputs :=
                (ByteMixer_inputs b)[ByteMixer_offset b :=
                   ByteMixer_inputs b ! ByteMixer_offset b + x],
              ByteMixer_offset :=
                (if ByteMixer_offset b + 1 = ByteMixer_vocab_size b then 0
                 else ByteMixer_offset b + 1)\<rparr>)"
  using assms by (simp add: SetInput_def Let_def)

text \<open>
  One pass over the bytes \<open>0, \<dots>, n - 1\<close> in ascending order, from cursor 0:
  the cursor is the rank of \<open>n\<close>, every vocabulary byte below \<open>n\<close> has had its
  value added to the slot of its rank, and the slots from the rank of \<open>n\<close> on
  are as before.
\<close>

lemma SetInput_calls_prefix:
  fixes bm :: "('a :: plus) ByteMixer"
  assumes "256 \<le> length (ByteMixer_vocab bm)"
    and "ByteMixer_vocab_size bm = vocab_rank (ByteMixer_vocab bm) 256"
    and "length (ByteMixer_inputs bm) = ByteMixer_vocab_size bm"
    and "ByteMixer_offset bm = 0"
    and "n \<le> 256"
  shows "\<exists>b. SetInput_calls (map (\<lambda>i. (int i, val i)) [0..<n]) bm = Some b
       \<and> ByteMixer_vocab b = ByteMixer_vocab bm
       \<and> ByteMixer_byte_map b = ByteMixer_byte_map bm
       \<and> ByteMixer_vocab_size b = ByteMixer_vocab_size bm
       \<and> length (ByteMixer_inputs b) = length (ByteMixer_inputs bm)
       \<and> ByteMixer_offset b =
           (if vocab_rank (ByteMixer_vocab bm) n = ByteMixer_vocab_size bm then 0
            else vocab_rank (ByteMixer_vocab bm) n)
       \<and> (\<forall>i<n. ByteMixer_vocab bm ! i \<longrightarrow>
             ByteMixer_inputs b ! vocab_rank (ByteMixer_vocab bm) i
               = ByteMixer_inputs bm ! vocab_rank (ByteMixer_vocab bm) i + val i)
       \<and> (\<forall>k. vocab_rank (ByteMixer_vocab bm) n \<le> k \<longrightarrow>
             ByteMixer_inputs b ! k = ByteMixer_inputs bm ! k)"
  using assms(5)
proof (induction n)
  case 0
  show ?case using assms(4) by (simp add: vocab_rank_def)
next
  case (Suc n)
  let ?v = "ByteMixer_vocab bm"
  let ?r = "vocab_rank ?v"
  from Suc obtain b where b:
    "SetInput_calls (map (\<lambda>i. (int i, val i)) [0..<n]) bm = Some b"
    "ByteMixer_vocab b = ?v"
    "ByteMixer_byte_map b = ByteMixer_byte_map bm"
    "ByteMixer_vocab_size b = ByteMixer_vocab_size bm"
    "length (ByteMixer_inputs b) = length (ByteMixer_inputs bm)"
    "ByteMixer_offset b = (if ?r n = ByteMixer_vocab_size bm then 0 else ?r n)"
    "\<forall>i<n. ?v ! i \<longrightarrow> ByteMixer_inputs b ! ?r i = ByteMixer_inputs bm ! ?r i + val i"
    "\<forall>k. ?r n \<le> k \<longrightarrow> ByteMixer_inputs b ! k = ByteMixer_inputs bm ! k"
    by auto
  have n: "n < length ?v" "n < 256" using Suc.prems assms(1) by simp_all
  have calls: "SetInput_calls (map (\<lambda>i. (int i, val i)) [0..<Suc n]) bm
      = SetInput (int n) (val n) b"
    by (simp add: SetInput_calls_append b(1) split: option.splits)
  show ?case
  proof (cases "?v ! n")
    case False
    have "SetInput (int n) (val n) b = Some b"
      using n False by (simp add: SetInput_outside b(2))
    moreover have "?r (Suc n) = ?r n"
      using n False by (simp add: vocab_rank_Suc)
    ultimately show ?thesis
      using b False calls by (auto simp add: less_Suc_eq)
  next
    case True
    have rs: "?r (Suc n) = ?r n + 1"
      using n True by (simp add: vocab_rank_Suc)
    have "?r (Suc n) \<le> ?r 256"
      using n by (intro vocab_rank_mono) simp
    then have lt: "?r n < ByteMixer_vocab_size bm"
      using rs assms(2) by simp
    then have off: "ByteMixer_offset b = ?r n"
      using b(6) by simp
    have inb: "ByteMixer_offset b < length (ByteMixer_inputs b)"
      using off lt b(5) assms(3) by simp
    let ?b1 = "b\<lparr>ByteMixer_inputs :=
                (ByteMixer_inputs b)[?r n := ByteMixer_inputs b ! ?r n + val n],
              ByteMixer_offset :=
                (if ?r n + 1 = ByteMixer_vocab_size bm then 0 else ?r n + 1)\<rparr>"
    have s: "SetInput (int n) (val n) b = Some ?b1"
      using SetInput_inside [of n b "val n"] n True inb off b(2,4) by simp
    have old: "ByteMixer_inputs b ! ?r n = ByteMixer_inputs bm ! ?r n"
      using b(8) by simp
    have below: "\<forall>i<n. ?v ! i \<longrightarrow> ?r i \<noteq> ?r n"
    proof (intro allI impI)
      fix i assume "i < n" "?v ! i"
      then have "?r i < ?r n"
        using n(1) by (intro vocab_rank_less) simp_all
      then show "?r i \<noteq> ?r n" by simp
    qed
    have len: "?r n < length (ByteMixer_inputs b)"
      using inb off by simp
    have p1: "\<forall>i<Suc n. ?v ! i \<longrightarrow>
        ByteMixer_inputs ?b1 ! ?r i = ByteMixer_inputs bm ! ?r i + val i"
    proof (intro allI impI)
      fix i assume i: "i < Suc n" "?v ! i"
      show "ByteMixer_inputs ?b1 ! ?r i = ByteMixer_inputs bm ! ?r i + val i"
      proof (cases "i = n")
        case True
        then show ?thesis using len old by simp
      next
        case False
        then have "i < n" using i(1) by simp
        then have "?r i \<noteq> ?r n"
          and "ByteMixer_inputs b ! ?r i = ByteMixer_inputs bm ! ?r i + val i"
          using below b(7) i(2) by simp_all
        then show ?thesis by simp
      qed
    qed
    have p2: "\<forall>k. ?r (Suc n) \<le> k \<longrightarrow> ByteMixer_inputs ?b1 ! k = ByteMixer_inputs bm ! k"
      using b(8) rs by (simp add: nth_list_update)
    have p3: "ByteMixer_offset ?b1 =
        (if ?r (Suc n) = ByteMixer_vocab_size bm then 0 else ?r (Suc n))"
      using rs by simp
    have p4: "ByteMixer_vocab ?b1 = ?v" "ByteMixer_byte_map ?b1 = ByteMixer_byte_map bm"
      "ByteMixer_vocab_size ?b1 = ByteMixer_vocab_size bm"
      "length (ByteMixer_inputs ?b1) = length (ByteMixer_inputs bm)"
      using b(2-5) by simp_all
    show ?thesis
      unfolding calls s using p1 p2 p3 p4 by blast
  qed
qed

text \<open>
  A whole pass from cursor 0 over the bytes in ascending order, on a mixer
  whose map is the one the constructor computes: every vocabulary byte has had
  its value added to its own slot, and the cursor is at 0 again.
\<close>

lemma SetInput_calls_in_order:
  fixes bm :: "('a :: plus) ByteMixer"
  assumes "256 \<le> length (ByteMixer_vocab bm)"
    and "ByteMixer_vocab_size bm = vocab_rank (ByteMixer_vocab bm) 256"
    and "length (ByteMixer_inputs bm) = ByteMixer_vocab_size bm"
    and "ByteMixer_offset bm = 0"
    and "\<forall>i<256. ByteMixer_byte_map bm ! i = vocab_rank (ByteMixer_vocab bm) i"
  shows "\<exists>b. SetInput_calls (map (\<lambda>i. (int i, val i)) [0..<256]) bm = Some b
       \<and> ByteMixer_offset b = 0
       \<and> (\<forall>i<256. ByteMixer_vocab bm ! i \<longrightarrow>
             ByteMixer_inputs b ! (ByteMixer_byte_map bm ! i)
               = ByteMixer_inputs bm ! (ByteMixer_byte_map bm ! i) + val i)"
proof -
  from SetInput_calls_prefix [OF assms(1-4), of 256 val]
  obtain b where b:
    "SetInput_calls (map (\<lambda>i. (int i, val i)) [0..<256]) bm = Some b"
    "ByteMixer_offset b =
       (if vocab_rank (ByteMixer_vocab bm) 256 = ByteMixer_vocab_size bm then 0
        else vocab_rank (ByteMixer_vocab bm) 256)"
    "\<forall>i<256. ByteMixer_vocab bm ! i \<longrightarrow>
       ByteMixer_inputs b ! vocab_rank (ByteMixer_vocab bm) i
         = ByteMixer_inputs bm ! vocab_rank (ByteMixer_vocab bm) i + val i"
    by auto
  have "ByteMixer_offset b = 0" using b(2) assms(2) by simp
  moreover have "\<forall>i<256. ByteMixer_vocab bm ! i \<longrightarrow>
      ByteMixer_inputs b ! (ByteMixer_byte_map bm ! i)
        = ByteMixer_inputs bm ! (ByteMixer_byte_map bm ! i) + val i"
    using b(3) assms(5) by simp
  ultimately show ?thesis using b(1) by blast
qed

text \<open>
  Claim C2, as the code has it.  A call for a byte outside the vocabulary
  changes nothing.  A call for a byte of the vocabulary adds the value to the
  slot under the cursor \<^verbatim>\<open>offset_\<close>, leaves every other slot unchanged and
  moves the cursor on, back to 0 after the last slot.  The slot is the one
  that \<^verbatim>\<open>byte_map_\<close> assigns to the byte exactly when the cursor stands there,
  as it does when the bytes of the vocabulary are given in ascending order
  starting from cursor 0.
\<close>

theorem SetInput_slot:
  assumes "0 \<le> index" "index < int (length (ByteMixer_vocab bm))"
  shows "(\<not> ByteMixer_vocab bm ! nat index \<longrightarrow> SetInput index val bm = Some bm)
       \<and> (ByteMixer_vocab bm ! nat index \<and> ByteMixer_offset bm < length (ByteMixer_inputs bm) \<longrightarrow>
            (\<exists>bm1. SetInput index val bm = Some bm1
               \<and> ByteMixer_inputs bm1 = (ByteMixer_inputs bm)[ByteMixer_offset bm := ByteMixer_inputs bm ! ByteMixer_offset bm + val]
               \<and> ByteMixer_inputs bm1 ! ByteMixer_offset bm = ByteMixer_inputs bm ! ByteMixer_offset bm + val
               \<and> (\<forall>k. k \<noteq> ByteMixer_offset bm \<longrightarrow> ByteMixer_inputs bm1 ! k = ByteMixer_inputs bm ! k)
               \<and> ByteMixer_offset bm1 = (if ByteMixer_offset bm + 1 = ByteMixer_vocab_size bm then 0 else ByteMixer_offset bm + 1)
               \<and> ByteMixer_vocab bm1 = ByteMixer_vocab bm \<and> ByteMixer_byte_map bm1 = ByteMixer_byte_map bm
               \<and> ByteMixer_vocab_size bm1 = ByteMixer_vocab_size bm
               \<and> (ByteMixer_offset bm = ByteMixer_byte_map bm ! nat index \<longrightarrow>
                    ByteMixer_inputs bm1 ! (ByteMixer_byte_map bm ! nat index)
                      = ByteMixer_inputs bm ! (ByteMixer_byte_map bm ! nat index) + val)))"
  using assms by (simp add: SetInput_def Let_def)

theorem SetInput_slot_witness:
  "(0 :: int) \<le> 65 \<and> (65 :: int) < int (length (ByteMixer_vocab mixer_AB))
   \<and> ByteMixer_vocab mixer_AB ! nat 65 \<and> ByteMixer_offset mixer_AB < length (ByteMixer_inputs mixer_AB)
   \<and> ByteMixer_offset mixer_AB = ByteMixer_byte_map mixer_AB ! nat 65
   \<and> map_option ByteMixer_inputs (SetInput 65 5 mixer_AB) = Some [5, 0]
   \<and> map_option ByteMixer_offset (SetInput 65 5 mixer_AB) = Some 1
   \<and> SetInput 64 5 mixer_AB = Some mixer_AB"
proof -
  have a: "(0 :: int) \<le> 65" "(65 :: int) < int (length (ByteMixer_vocab mixer_AB))"
    "(0 :: int) \<le> 64" "(64 :: int) < int (length (ByteMixer_vocab mixer_AB))"
    by (simp_all add: mixer_AB_def vocab_AB_def)
  have v: "ByteMixer_vocab mixer_AB ! nat 65" "\<not> ByteMixer_vocab mixer_AB ! nat 64"
    by (simp_all add: mixer_AB_def vocab_AB_def nth_append)
  have o: "ByteMixer_offset mixer_AB < length (ByteMixer_inputs mixer_AB)" "ByteMixer_offset mixer_AB = 0"
    "ByteMixer_inputs mixer_AB = [0, 0]" "ByteMixer_byte_map mixer_AB ! nat 65 = 0" "ByteMixer_vocab_size mixer_AB = 2"
    by (simp_all add: mixer_AB_def nth_append)
  from SetInput_slot [OF a(1,2), of 5] v(1) o(1)
  obtain bm1 where 1: "SetInput 65 5 mixer_AB = Some bm1"
      "ByteMixer_inputs bm1 = (ByteMixer_inputs mixer_AB)[ByteMixer_offset mixer_AB := ByteMixer_inputs mixer_AB ! ByteMixer_offset mixer_AB + 5]"
      "ByteMixer_offset bm1 = (if ByteMixer_offset mixer_AB + 1 = ByteMixer_vocab_size mixer_AB then 0 else ByteMixer_offset mixer_AB + 1)"
    by blast
  from SetInput_slot [OF a(3,4), of 5] v(2)
  have 2: "SetInput 64 5 mixer_AB = Some mixer_AB"
    by blast
  show ?thesis
    using a v o 1 2 by simp
qed

text \<open>
  The mixer of the vocabulary \<open>{65, 66}\<close> the constructor builds, with the
  cursor at 0: a call for byte 66, whose slot is 1, adds to slot 0 and leaves
  slot 1 as it was.
\<close>

theorem SetInput_counterexample:
  "ByteMixer_new vocab_AB 2 = Some mixer_AB
   \<and> ByteMixer_vocab mixer_AB ! 66
   \<and> ByteMixer_byte_map mixer_AB ! 66 = 1
   \<and> map_option ByteMixer_inputs (SetInput 66 5 mixer_AB) = Some [5, 0]"
  by code_simp

subsection \<open>Predictor\<close>

lemma interpolate_range:
  assumes "0 \<le> w" "w \<le> 127" "0 \<le> t0" "t0 \<le> 65535" "0 \<le> t1" "t1 \<le> (65535 :: int)"
  shows "0 \<le> drop_bit 11 (t0 * (128 - w) + t1 * w)
       \<and> drop_bit 11 (t0 * (128 - w) + t1 * w) \<le> 4095"
proof -
  have a: "t0 * (128 - w) \<le> 65535 * (128 - w)"
    using assms by (intro mult_right_mono) simp_all
  have b: "t1 * w \<le> 65535 * w"
    using assms by (intro mult_right_mono) simp_all
  have c: "0 \<le> t0 * (128 - w)" "0 \<le> t1 * w"
    using assms by simp_all
  from a b have "t0 * (128 - w) + t1 * w \<le> 65535 * 128" by simp
  then have "(t0 * (128 - w) + t1 * w) div 2048 \<le> (65535 * 128) div 2048"
    by (rule zdiv_mono1) simp
  moreover from c have "0 \<le> (t0 * (128 - w) + t1 * w) div 2048"
    by (intro pos_imp_zdiv_nonneg_iff [THEN iffD2]) simp_all
  ultimately show ?thesis
    by (simp add: drop_bit_eq_div)
qed

lemma uint_U16_range: "0 \<le> uint (t :: U16) \<and> uint t \<le> 65535"
  using uint_lt2p [of t] by simp

lemma and_127_range: "0 \<le> (s :: int) AND 127 \<and> s AND 127 \<le> 127"
  by (simp add: AND_upper2')

text \<open>What a call of \<^verbatim>\<open>APM::p\<close> that returns gives.\<close>

lemma APM_p_Some:
  assumes "APM_p gc pr cxt rate a = Some (r, a1)"
  shows "0 \<le> r \<and> r \<le> 4095 \<and> APM_size a1 = APM_size a
       \<and> 0 \<le> APM_index a1 \<and> APM_index a1 + 1 < APM_size a1"
proof -
  from assms obtain s b t0 t1 where
    r: "r = drop_bit 11 (uint t0 * (128 - (s AND 127)) + uint t1 * (s AND 127))"
    and a1: "a1 = b\<lparr>APM_index := drop_bit 7 (s + 2048) + cxt * 33\<rparr>"
    and b: "APM_size b = APM_size a"
    and t0: "APM_at a1 (APM_index a1) = Some t0"
    and t1: "APM_at a1 (APM_index a1 + 1) = Some t1"
    by (auto simp add: APM_p_def APM_train_def Let_def split: option.splits if_splits)
  have "0 \<le> r \<and> r \<le> 4095"
    unfolding r
    using uint_U16_range [of t0] uint_U16_range [of t1] and_127_range [of s]
    by (intro interpolate_range) simp_all
  moreover have "APM_size a1 = APM_size a" using a1 b by simp
  moreover have "0 \<le> APM_index a1" using t0 by (simp add: APM_at_def split: if_splits)
  moreover have "APM_index a1 + 1 < APM_size a1" using t1 by (simp add: APM_at_def split: if_splits)
  ultimately show ?thesis by simp
qed

lemma APM_p_ok:
  assumes "APM_p gc pr cxt rate a = Some (r, a1)" "APM_ok n a"
  shows "APM_ok n a1"
  using APM_p_Some [OF assms(1)] assms(2) by (simp add: APM_ok_def)

lemma final_pr_range:
  assumes "0 \<le> pt" "pt \<le> 4095" "0 \<le> pu" "pu \<le> 4095" "0 \<le> pv" "pv \<le> 4095"
    "0 \<le> pz" "pz \<le> 4095"
  shows "0 \<le> final_pr g pt pu pv pz \<and> final_pr g pt pu pv pz \<le> 4095"
proof -
  have d: "0 \<le> x div 32 \<and> x div 32 \<le> 4095" if "0 \<le> x" "x \<le> 131071" for x :: int
    using that by arith
  have "0 \<le> pt * 6 + pu + pv * 11 + pz * 14 + 16"
    "pt * 6 + pu + pv * 11 + pz * 14 + 16 \<le> 131071"
    "0 \<le> pt * 4 + pu * 5 + pv * 12 + pz * 11 + 16"
    "pt * 4 + pu * 5 + pv * 12 + pz * 11 + 16 \<le> 131071"
    using assms by simp_all
  then show ?thesis
    using d [of "pt * 6 + pu + pv * 11 + pz * 14 + 16"]
      d [of "pt * 4 + pu * 5 + pv * 12 + pz * 11 + 16"]
    by (simp add: final_pr_def drop_bit_eq_div)
qed

lemma APM_new_ok: "0 < n \<Longrightarrow> APM_ok n (APM_new n)"
  by (simp add: APM_ok_def APM_new_def)

lemma paq8_new_ok: "paq8_ok (paq8_new memory m)"
  by (simp add: paq8_ok_def paq8_new_def APM_new_ok)

lemma Predictor_update_ok:
  assumes "Predictor_update cm2 s = Some s1" "paq8_ok s"
  shows "paq8_ok s1"
proof -
  from assms(1) obtain pr g m q1 a1 pu1 a4 pv a2 pv1 a5 pt a3 pz a6 where
    1: "APM_p g pr (c0 g) 3 (Predictor_a1 s) = Some (q1, a1)"
    and 4: "APM_p g (drop_bit 3 (q1 + 7 * pr + 4)) (cxt_a4 g) (APM_rate g) (Predictor_a4 s)
          = Some (pu1, a4)"
    and 2: "APM_p g pr (cxt_a2 g) (APM_rate g + 1) (Predictor_a2 s) = Some (pv, a2)"
    and 5: "APM_p g pv (cxt_a5 g) (APM_rate g) (Predictor_a5 s) = Some (pv1, a5)"
    and 3: "APM_p g pr (cxt_a3 g) (APM_rate g) (Predictor_a3 s) = Some (pt, a3)"
    and 6: "APM_p g pu1 (cxt_a6 g) (APM_rate g) (Predictor_a6 s) = Some (pz, a6)"
    and s1: "s1 = \<lparr>paq8_g = g, Predictor_pr = final_pr g pt pu1 pv1 pz,
                Predictor_a1 = a1, Predictor_a2 = a2, Predictor_a3 = a3,
                Predictor_a4 = a4, Predictor_a5 = a5, Predictor_a6 = a6,
                paq8_models = m\<rparr>"
    unfolding Predictor_update_def Let_def
    by (auto split: option.splits prod.splits)
  have r: "0 \<le> final_pr g pt pu1 pv1 pz \<and> final_pr g pt pu1 pv1 pz \<le> 4095"
    using APM_p_Some [OF 3] APM_p_Some [OF 4] APM_p_Some [OF 5] APM_p_Some [OF 6]
    by (intro final_pr_range) simp_all
  have k: "APM_ok 256 a1" "APM_ok 0x8000 a2" "APM_ok 0x8000 a3" "APM_ok 0x20000 a4"
    "APM_ok 0x10000 a5" "APM_ok 0x10000 a6"
    using assms(2) APM_p_ok [OF 1] APM_p_ok [OF 2] APM_p_ok [OF 3] APM_p_ok [OF 4]
      APM_p_ok [OF 5] APM_p_ok [OF 6]
    by (simp_all add: paq8_ok_def)
  show ?thesis
    unfolding s1 paq8_ok_def using r k by simp
qed

lemma paq8_ok_globals: "paq8_ok (s\<lparr>paq8_g := g\<rparr>) = paq8_ok s"
  by (simp add: paq8_ok_def)

lemma Predictor_reach_ok:
  assumes "Predictor_reach cm2 s"
  shows "paq8_ok s"
  using assms
proof (induction rule: Predictor_reach.induct)
  case (paq8_reach_new memory m)
  show ?case by (rule paq8_new_ok)
next
  case (paq8_reach_predict s)
  then show ?case by (simp add: PAQ8Predict_def)
next
  case (paq8_reach_perceive s bitv s1)
  then show ?case
    using Predictor_update_ok [of cm2 "s\<lparr>paq8_g := set_bit_y bitv (paq8_g s)\<rparr>" s1]
    by (simp add: PAQ8Perceive_def paq8_ok_globals)
qed
lemma xor_mask_ctx:
  fixes h :: U32
  assumes "0 \<le> k" "k < 2 ^ n" "n \<le> 30"
  shows "0 \<le> sint (word_of_int k XOR (h AND mask n))
       \<and> sint (word_of_int k XOR (h AND mask n)) < 2 ^ n"
proof -
  let ?x = "word_of_int k XOR (h AND mask n) :: U32"
  have p: "(2 :: int) ^ n \<le> 2 ^ 30" using assms(3) by (intro power_increasing) simp_all
  have k: "uint (word_of_int k :: U32) = k"
    using assms(1,2) p by (simp add: uint_word_of_int take_bit_int_eq_self)
  have u: "uint ?x = k XOR uint (h AND mask n)"
    by (simp only: uint_xor k)
  have lt: "uint ?x < 2 ^ n"
    unfolding u using assms(1,2) and_mask_lt_2p [of h n] by (intro XOR_upper) simp_all
  have "sint ?x = signed_take_bit 31 (uint ?x)" by (simp add: sint_uint)
  also have "\<dots> = uint ?x"
  proof (rule signed_take_bit_int_eq_self)
    have "- (2 ^ 31) \<le> (0 :: int)" by simp
    also have "0 \<le> uint ?x" by simp
    finally show "- (2 ^ 31) \<le> uint ?x" .
    show "uint ?x < 2 ^ 31" using lt p by simp
  qed
  finally show ?thesis using lt by simp
qed

lemma mask_numerals:
  "(0x1ffff :: U32) = mask 17" "(0x7fff :: U32) = mask 15" "(0xffff :: U32) = mask 16"
  by (simp_all add: mask_eq_exp_minus_1)

lemma cxt_ranges:
  assumes "1 \<le> c0 g" "c0 g \<le> 255"
  shows "0 \<le> cxt_a4 g \<and> cxt_a4 g < 0x20000"
    and "0 \<le> cxt_a2 g \<and> cxt_a2 g < 0x8000"
    and "0 \<le> cxt_a5 g \<and> cxt_a5 g < 0x10000"
    and "0 \<le> cxt_a3 g \<and> cxt_a3 g < 0x8000"
    and "0 \<le> cxt_a6 g \<and> cxt_a6 g < 0x10000"
proof -
  show "0 \<le> cxt_a4 g \<and> cxt_a4 g < 0x20000"
    unfolding cxt_a4_def mask_numerals
    using xor_mask_ctx [of "c0 g * 2" 17] assms by simp
  show "0 \<le> cxt_a2 g \<and> cxt_a2 g < 0x8000"
    unfolding cxt_a2_def mask_numerals
    using xor_mask_ctx [of "c0 g * 8" 15] assms by simp
  show "0 \<le> cxt_a5 g \<and> cxt_a5 g < 0x10000"
    unfolding cxt_a5_def mask_numerals
    using xor_mask_ctx [of 0 16 "hash (word_of_int (c0 g)) (w5 g AND 0xfffff) 0xffffffff"]
    by simp
  show "0 \<le> cxt_a3 g \<and> cxt_a3 g < 0x8000"
    unfolding cxt_a3_def mask_numerals
    using xor_mask_ctx [of "c0 g * 32" 15] assms by simp
  show "0 \<le> cxt_a6 g \<and> cxt_a6 g < 0x10000"
    unfolding cxt_a6_def mask_numerals
    using xor_mask_ctx [of "c0 g * 4" 16] assms by simp
qed

text \<open>
  A call of \<^verbatim>\<open>APM::p\<close> with a probability in [0, 4095] and a context below
  the number of contexts returns.
\<close>

lemma APM_p_defined:
  assumes "0 \<le> pr" "pr \<le> 4095" "APM_ok n a" "0 \<le> cxt" "cxt < n"
  shows "\<exists>r a1. APM_p gc pr cxt rate a = Some (r, a1)"
proof -
  obtain s where s: "stretch pr = Some s" "- 2047 \<le> s" "s \<le> 2047"
    using stretch_range [OF assms(1,2)] by blast
  have i: "0 \<le> APM_index a" "APM_index a + 1 < APM_size a" "APM_size a = n * 33"
    using assms(3) by (simp_all add: APM_ok_def)
  have q: "0 \<le> drop_bit 7 (s + 2048)" "drop_bit 7 (s + 2048) \<le> 31"
    using s(2,3) by (simp_all add: drop_bit_eq_div)
  have j: "0 \<le> drop_bit 7 (s + 2048) + cxt * 33"
    "drop_bit 7 (s + 2048) + cxt * 33 + 1 < n * 33"
    using q assms(4,5) by simp_all
  show ?thesis
    using s(1) i j
    by (simp add: APM_p_def APM_train_def APM_at_def Let_def)
qed

text \<open>
  \<^verbatim>\<open>Predictor::update\<close> returns whenever the context model returns a
  probability in [0, 4095] and globals in which \<^verbatim>\<open>c0\<close> holds a partial byte.
\<close>

lemma Predictor_update_defined:
  assumes ok: "paq8_ok s"
    and cm: "cm2 (update_fails (Predictor_pr s) (update_context (paq8_g s))) (paq8_models s)
               = Some (pr, g, m)"
    and pr: "0 \<le> pr" "pr \<le> 4095"
    and c0: "1 \<le> c0 g" "c0 g \<le> 255"
  shows "\<exists>s1. Predictor_update cm2 s = Some s1"
proof -
  have k: "APM_ok 256 (Predictor_a1 s)" "APM_ok 0x8000 (Predictor_a2 s)"
    "APM_ok 0x8000 (Predictor_a3 s)" "APM_ok 0x20000 (Predictor_a4 s)"
    "APM_ok 0x10000 (Predictor_a5 s)" "APM_ok 0x10000 (Predictor_a6 s)"
    using ok by (simp_all add: paq8_ok_def)
  obtain q1 a1 where 1: "APM_p g pr (c0 g) 3 (Predictor_a1 s) = Some (q1, a1)"
    using APM_p_defined [OF pr k(1), of "c0 g" g 3] c0 by auto
  have q1: "0 \<le> q1" "q1 \<le> 4095" using APM_p_Some [OF 1] by simp_all
  have pu: "0 \<le> drop_bit 3 (q1 + 7 * pr + 4)" "drop_bit 3 (q1 + 7 * pr + 4) \<le> 4095"
    using q1 pr by (simp_all add: drop_bit_eq_div)
  obtain pu1 a4 where 4:
    "APM_p g (drop_bit 3 (q1 + 7 * pr + 4)) (cxt_a4 g) (APM_rate g) (Predictor_a4 s)
       = Some (pu1, a4)"
    using APM_p_defined [OF pu k(4), of "cxt_a4 g" g "APM_rate g"] cxt_ranges(1) [OF c0]
    by auto
  obtain pv a2 where 2:
    "APM_p g pr (cxt_a2 g) (APM_rate g + 1) (Predictor_a2 s) = Some (pv, a2)"
    using APM_p_defined [OF pr k(2), of "cxt_a2 g" g "APM_rate g + 1"] cxt_ranges(2) [OF c0]
    by auto
  have pv: "0 \<le> pv" "pv \<le> 4095" using APM_p_Some [OF 2] by simp_all
  obtain pv1 a5 where 5:
    "APM_p g pv (cxt_a5 g) (APM_rate g) (Predictor_a5 s) = Some (pv1, a5)"
    using APM_p_defined [OF pv k(5), of "cxt_a5 g" g "APM_rate g"] cxt_ranges(3) [OF c0]
    by auto
  obtain pt a3 where 3:
    "APM_p g pr (cxt_a3 g) (APM_rate g) (Predictor_a3 s) = Some (pt, a3)"
    using APM_p_defined [OF pr k(3), of "cxt_a3 g" g "APM_rate g"] cxt_ranges(4) [OF c0]
    by auto
  have pu1: "0 \<le> pu1" "pu1 \<le> 4095" using APM_p_Some [OF 4] by simp_all
  obtain pz a6 where 6:
    "APM_p g pu1 (cxt_a6 g) (APM_rate g) (Predictor_a6 s) = Some (pz, a6)"
    using APM_p_defined [OF pu1 k(6), of "cxt_a6 g" g "APM_rate g"] cxt_ranges(5) [OF c0]
    by auto
  show ?thesis
    unfolding Predictor_update_def Let_def
    by (simp add: cm 1 4 2 5 3 6)
qed
lemma set_bit_y_c0: "c0 (set_bit_y bitv g) = c0 g"
  by (simp add: set_bit_y_def Let_def)

lemma gctx_init_c0: "c0 (PAQ8Init memory gctx_init) = 1"
  by (simp add: PAQ8Init_def gctx_init_def Buf_setsize_def Let_def)

lemma update_fails_c0: "c0 (update_fails pr g) = c0 g"
  by (simp add: update_fails_def Let_def)

text \<open>
  Claim C9.  In every state the program reaches, whatever the context model
  does, \<^verbatim>\<open>PAQ8Predict\<close> returns a value between 0 and 4095 and leaves the whole
  state (globals, models, APMs, \<^verbatim>\<open>pr\<close>) as it was, so that a second call in
  the same bit cycle returns the same value from the same state.
\<close>

theorem PAQ8Predict_range_idempotent:
  assumes "Predictor_reach cm2 s"
  shows "0 \<le> fst (PAQ8Predict s) \<and> fst (PAQ8Predict s) \<le> 4095
       \<and> snd (PAQ8Predict s) = s
       \<and> PAQ8Predict (snd (PAQ8Predict s)) = PAQ8Predict s"
  using Predictor_reach_ok [OF assms]
  by (simp add: PAQ8Predict_def Predictor_p_def paq8_ok_def)

text \<open>
  The theorem at the initial state, where the prediction is 2048, and at
  the state after the first bit 1 with the stand-in context model, which
  \<^verbatim>\<open>PAQ8Perceive\<close> does reach.
\<close>

theorem PAQ8Predict_range_idempotent_witness:
  "Predictor_reach cm2_even (paq8_new 8 ())
   \<and> PAQ8Predict (paq8_new 8 ()) = (2048, paq8_new 8 ())
   \<and> (\<exists>s1. PAQ8Perceive cm2_even 1 (paq8_new 8 ()) = Some s1
          \<and> Predictor_reach cm2_even s1
          \<and> 0 \<le> fst (PAQ8Predict s1) \<and> fst (PAQ8Predict s1) \<le> 4095
          \<and> snd (PAQ8Predict s1) = s1
          \<and> PAQ8Predict (snd (PAQ8Predict s1)) = PAQ8Predict s1)"
proof -
  let ?i = "paq8_new 8 ()"
  let ?t = "?i\<lparr>paq8_g := set_bit_y 1 (paq8_g ?i)\<rparr>"
  let ?g = "update_fails (Predictor_pr ?t) (update_context (paq8_g ?t))"
  have r0: "Predictor_reach cm2_even ?i" by (rule paq8_reach_new)
  have p0: "PAQ8Predict ?i = (2048, ?i)"
    by (simp add: PAQ8Predict_def Predictor_p_def paq8_new_def)
  have ok: "paq8_ok ?t" by (simp add: paq8_ok_globals paq8_new_ok)
  have "paq8_g ?t = set_bit_y 1 (PAQ8Init 8 gctx_init)" by (simp add: paq8_new_def)
  then have "update_context (paq8_g ?t) = perceive_context 1 (PAQ8Init 8 gctx_init)"
    by (simp add: perceive_context_def)
  then have c: "1 \<le> c0 ?g \<and> c0 ?g \<le> 255"
    using perceive_context_c0_bounds [of 1 "PAQ8Init 8 gctx_init"]
    by (simp add: update_fails_c0 gctx_init_c0)
  have cm: "cm2_even ?g (paq8_models ?t) = Some (2048, ?g, paq8_models ?t)"
    by (simp add: cm2_even_def)
  obtain s1 where s1: "Predictor_update cm2_even ?t = Some s1"
    using Predictor_update_defined [of ?t cm2_even 2048 ?g "paq8_models ?t"] ok cm c
    by auto
  then have per: "PAQ8Perceive cm2_even 1 ?i = Some s1"
    by (simp add: PAQ8Perceive_def)
  have r1: "Predictor_reach cm2_even s1"
    by (rule paq8_reach_perceive [OF r0 _ per]) simp
  show ?thesis
    using PAQ8Predict_range_idempotent [OF r1] PAQ8Predict_range_idempotent [OF r0]
      r0 p0 per r1
    by blast
qed

end
